theory Spec2Isabelle
  imports Main "HOL-Library.Char_ord"
begin

section \<open>Byte strings and the string helpers of the Go library\<close>

text \<open>
  A Go \<open>string\<close> is a sequence of bytes, modelled as \<open>string\<close> (a list of 8-bit
  characters). The helpers below follow the functions of Go's \<open>strings\<close> package that the
  package \<open>linebased\<close> calls, at the level of bytes.
\<close>

abbreviation NL :: char where "NL \<equiv> CHR 0x0A"
abbreviation TAB :: char where "TAB \<equiv> CHR 0x09"
abbreviation SP :: char where "SP \<equiv> CHR 0x20"
abbreviation HASH :: char where "HASH \<equiv> CHR ''#''"
abbreviation DOLLAR :: char where "DOLLAR \<equiv> CHR ''$''"

definition HasPrefix :: "string \<Rightarrow> string \<Rightarrow> bool" where
  "HasPrefix s p = (take (length p) s = p)"

definition HasSuffix :: "string \<Rightarrow> string \<Rightarrow> bool" where
  "HasSuffix s p = (length p \<le> length s \<and> drop (length s - length p) s = p)"

definition TrimSuffix :: "string \<Rightarrow> string \<Rightarrow> string" where
  "TrimSuffix s p = (if HasSuffix s p then take (length s - length p) s else s)"

text \<open>\<open>strings.TrimLeft(s, cutset)\<close> for a cutset of ASCII bytes.\<close>

definition TrimLeft :: "string \<Rightarrow> string \<Rightarrow> string" where
  "TrimLeft s cutset = dropWhile (\<lambda>c. c \<in> set cutset) s"

text \<open>\<open>strings.IndexAny(s, chars)\<close> for ASCII \<open>chars\<close>; \<open>None\<close> is Go's \<open>-1\<close>.\<close>

fun IndexAny :: "string \<Rightarrow> string \<Rightarrow> nat option" where
  "IndexAny [] chars = None"
| "IndexAny (c # s) chars =
     (if c \<in> set chars then Some 0 else map_option Suc (IndexAny s chars))"

definition ContainsAny :: "string \<Rightarrow> string \<Rightarrow> bool" where
  "ContainsAny s chars = (IndexAny s chars \<noteq> None)"

text \<open>\<open>strings.Cut(s, "\n")\<close>: the text before and after the first newline.\<close>

definition CutNL :: "string \<Rightarrow> string \<times> string \<times> bool" where
  "CutNL s = (case IndexAny s [NL] of
                None \<Rightarrow> (s, [], False)
              | Some i \<Rightarrow> (take i s, drop (Suc i) s, True))"

text \<open>
  \<open>unicode.IsSpace\<close> holds of the code points U+0009..U+000D, U+0020, U+0085, U+00A0,
  U+1680, U+2000..U+200A, U+2028, U+2029, U+202F, U+205F and U+3000. \<open>spaceSeqs\<close> lists
  their UTF-8 encodings. Every one of them starts with a byte that is no UTF-8
  continuation byte, so the first rune that is a space, found by Go's rune-wise scan,
  starts at the first byte position where one of these encodings starts, and a trailing
  space rune is a suffix that is one of these encodings.
\<close>

definition spaceSeqs :: "string list" where
  "spaceSeqs =
    [[CHR 0x09], [CHR 0x0A], [CHR 0x0B], [CHR 0x0C], [CHR 0x0D], [CHR 0x20],
     [CHR 0xC2, CHR 0x85], [CHR 0xC2, CHR 0xA0],
     [CHR 0xE1, CHR 0x9A, CHR 0x80],
     [CHR 0xE2, CHR 0x80, CHR 0x80], [CHR 0xE2, CHR 0x80, CHR 0x81],
     [CHR 0xE2, CHR 0x80, CHR 0x82], [CHR 0xE2, CHR 0x80, CHR 0x83],
     [CHR 0xE2, CHR 0x80, CHR 0x84], [CHR 0xE2, CHR 0x80, CHR 0x85],
     [CHR 0xE2, CHR 0x80, CHR 0x86], [CHR 0xE2, CHR 0x80, CHR 0x87],
     [CHR 0xE2, CHR 0x80, CHR 0x88], [CHR 0xE2, CHR 0x80, CHR 0x89],
     [CHR 0xE2, CHR 0x80, CHR 0x8A],
     [CHR 0xE2, CHR 0x80, CHR 0xA8], [CHR 0xE2, CHR 0x80, CHR 0xA9],
     [CHR 0xE2, CHR 0x80, CHR 0xAF],
     [CHR 0xE2, CHR 0x81, CHR 0x9F],
     [CHR 0xE3, CHR 0x80, CHR 0x80]]"

text \<open>The width in bytes of the space rune \<open>s\<close> starts with (ends with); 0 if none.\<close>

definition spaceWidth :: "string \<Rightarrow> nat" where
  "spaceWidth s = (case find (HasPrefix s) spaceSeqs of None \<Rightarrow> 0 | Some q \<Rightarrow> length q)"

definition spaceWidthR :: "string \<Rightarrow> nat" where
  "spaceWidthR s = (case find (HasSuffix s) spaceSeqs of None \<Rightarrow> 0 | Some q \<Rightarrow> length q)"

lemma spaceSeqs_nonempty: "q \<in> set spaceSeqs \<Longrightarrow> q \<noteq> []"
  by (auto simp: spaceSeqs_def)

lemma spaceWidth_le: "spaceWidth s \<le> length s"
proof (cases "find (HasPrefix s) spaceSeqs")
  case None
  then show ?thesis by (simp add: spaceWidth_def)
next
  case (Some q)
  then have "HasPrefix s q" by (auto simp: find_Some_iff)
  then have "length q \<le> length s"
    by (metis HasPrefix_def length_take min.cobounded1)
  with Some show ?thesis by (simp add: spaceWidth_def)
qed

lemma spaceWidthR_le: "spaceWidthR s \<le> length s"
proof (cases "find (HasSuffix s) spaceSeqs")
  case None
  then show ?thesis by (simp add: spaceWidthR_def)
next
  case (Some q)
  then have "HasSuffix s q" by (auto simp: find_Some_iff)
  then have "length q \<le> length s" by (simp add: HasSuffix_def)
  with Some show ?thesis by (simp add: spaceWidthR_def)
qed

lemma spaceWidth_Nil [simp]: "spaceWidth [] = 0"
  using spaceWidth_le [of "[]"] by simp

lemma spaceWidthR_Nil [simp]: "spaceWidthR [] = 0"
  using spaceWidthR_le [of "[]"] by simp

text \<open>\<open>strings.TrimLeftFunc(s, unicode.IsSpace)\<close> and \<open>strings.TrimRightFunc\<close>.\<close>

function TrimLeftSpace :: "string \<Rightarrow> string" where
  "TrimLeftSpace s = (if spaceWidth s = 0 then s else TrimLeftSpace (drop (spaceWidth s) s))"
  by pat_completeness auto
termination
proof (relation "measure length")
  show "wf (measure length)" by simp
next
  fix s :: string
  assume "spaceWidth s \<noteq> 0"
  then show "(drop (spaceWidth s) s, s) \<in> measure length"
    using spaceWidth_le [of s] by (cases s) auto
qed

function TrimRightSpace :: "string \<Rightarrow> string" where
  "TrimRightSpace s =
     (if spaceWidthR s = 0 then s else TrimRightSpace (take (length s - spaceWidthR s) s))"
  by pat_completeness auto
termination
proof (relation "measure length")
  show "wf (measure length)" by simp
next
  fix s :: string
  assume "spaceWidthR s \<noteq> 0"
  then show "(take (length s - spaceWidthR s) s, s) \<in> measure length"
    using spaceWidthR_le [of s] by (cases s) auto
qed

declare TrimLeftSpace.simps [simp del] TrimRightSpace.simps [simp del]

definition TrimSpace :: "string \<Rightarrow> string" where
  "TrimSpace s = TrimRightSpace (TrimLeftSpace s)"

text \<open>\<open>strings.IndexFunc(s, unicode.IsSpace)\<close>; \<open>None\<close> is Go's \<open>-1\<close>.\<close>

fun IndexSpace :: "string \<Rightarrow> nat option" where
  "IndexSpace [] = None"
| "IndexSpace (c # s) =
     (if spaceWidth (c # s) \<noteq> 0 then Some 0 else map_option Suc (IndexSpace s))"


lemma TrimLeftSpace_length: "length (TrimLeftSpace s) \<le> length s"
proof (induction s rule: TrimLeftSpace.induct)
  case (1 s)
  show ?case
  proof (cases "spaceWidth s = 0")
    case True
    then show ?thesis by (simp add: TrimLeftSpace.simps)
  next
    case False
    with 1 have "length (TrimLeftSpace (drop (spaceWidth s) s)) \<le> length s - spaceWidth s"
      by simp
    with False show ?thesis by (simp add: TrimLeftSpace.simps [of s])
  qed
qed

lemma TrimLeftSpace_shorter:
  "spaceWidth s \<noteq> 0 \<Longrightarrow> length (TrimLeftSpace s) < length s"
proof -
  assume a: "spaceWidth s \<noteq> 0"
  have "length (TrimLeftSpace (drop (spaceWidth s) s)) \<le> length s - spaceWidth s"
    using TrimLeftSpace_length [of "drop (spaceWidth s) s"] by simp
  moreover have "spaceWidth s \<le> length s" by (rule spaceWidth_le)
  ultimately show ?thesis using a by (simp add: TrimLeftSpace.simps [of s])
qed

lemma IndexSpace_Some:
  "IndexSpace s = Some i \<Longrightarrow> i < length s \<and> spaceWidth (drop i s) \<noteq> 0"
  by (induction s arbitrary: i) (auto split: if_splits)

section \<open>Expressions\<close>

text \<open>
  An \<open>Expression\<close> is a line number, the comment lines before the command, the name
  and the body. Line numbers are Go \<open>int\<close>s; they count the lines read, so they stay far
  from the bounds of a 64-bit integer and are modelled by unbounded integers.
\<close>

record Expression =
  Line :: int
  Comment :: string
  Name :: string
  Body :: string

text \<open>
  An \<open>Expanded\<close> is an expression with the file it was read from and the stack of the
  template calls that produced it.
\<close>

datatype Expanded =
  Expanded (Expression: Expression) (File: string) (Stack: "Expanded list")

text \<open>The zero value \<open>Expression{}\<close>.\<close>

definition zeroExpression :: Expression where
  "zeroExpression = \<lparr>Line = 0, Comment = [], Name = [], Body = []\<rparr>"

subsection \<open>Arguments\<close>

text \<open>
  \<open>cutField\<close> slices \<open>s\<close> around the first run of white space, returning the text before
  and after the run.
\<close>

definition cutField :: "string \<Rightarrow> string \<times> string" where
  "cutField s0 =
     (let s = TrimLeftSpace s0 in
      case IndexSpace s of
        None \<Rightarrow> (s, [])
      | Some i \<Rightarrow> (take i s, TrimLeftSpace (drop i s)))"

lemma cutField_shorter: "s \<noteq> [] \<Longrightarrow> length (snd (cutField s)) < length s"
proof -
  assume ne: "s \<noteq> []"
  let ?t = "TrimLeftSpace s"
  have le: "length ?t \<le> length s" by (rule TrimLeftSpace_length)
  show ?thesis
  proof (cases "IndexSpace ?t")
    case None
    with ne show ?thesis by (simp add: cutField_def Let_def)
  next
    case (Some i)
    then have "spaceWidth (drop i ?t) \<noteq> 0" by (simp add: IndexSpace_Some)
    then have "length (TrimLeftSpace (drop i ?t)) < length (drop i ?t)"
      by (rule TrimLeftSpace_shorter)
    with le Some show ?thesis by (simp add: cutField_def Let_def)
  qed
qed

text \<open>
  \<open>ParseArgs\<close> splits \<open>s\<close> into at most \<open>n\<close> white-space separated arguments; the final
  argument holds the remaining text. \<open>ParseArgs_loop\<close> is its \<open>for s != ""\<close> loop.
\<close>

function ParseArgs_loop :: "string \<Rightarrow> int \<Rightarrow> bool \<Rightarrow> string list" where
  "ParseArgs_loop s n unlimited =
     (if s = [] then []
      else if n = 1 \<and> \<not> unlimited then [s]
      else (case cutField s of (arg, s') \<Rightarrow> arg # ParseArgs_loop s' (n - 1) unlimited))"
  by pat_completeness auto
termination
  apply (relation "measure (\<lambda>(s, n, u). length s)")
   apply simp
  apply simp
  apply (metis cutField_shorter snd_conv)
  done

declare ParseArgs_loop.simps [simp del]

definition ParseArgs :: "string \<Rightarrow> int \<Rightarrow> string list" where
  "ParseArgs s n = (if n = 0 then [] else ParseArgs_loop s n (n < 0))"

text \<open>
  \<open>strings.Fields\<close>: the maximal runs of bytes that hold no white space, in order.
\<close>

function Fields :: "string \<Rightarrow> string list" where
  "Fields s =
     (if s = [] then []
      else (case cutField s of (f, s') \<Rightarrow> if f = [] then [] else f # Fields s'))"
  by pat_completeness auto
termination
  apply (relation "measure length")
   apply simp
  apply simp
  apply (metis cutField_shorter snd_conv)
  done

declare Fields.simps [simp del]

text \<open>
  Indexing a Go slice panics out of range; \<open>index\<close> makes the panic a value.
\<close>

datatype panic = IndexOutOfRange | PopEmptyStack | ExpectedDefine string

datatype 'a checked = Panic panic | Value 'a

definition index :: "'a list \<Rightarrow> int \<Rightarrow> 'a checked" where
  "index a i =
     (if i < 0 \<or> int (length a) \<le> i then Panic IndexOutOfRange else Value (a ! nat i))"

text \<open>
  \<open>Args.At\<close> returns the i-th argument, trimmed of any trailing newline, or the empty
  string if \<open>i\<close> is out of bounds.
\<close>

definition At :: "string list \<Rightarrow> int \<Rightarrow> string checked" where
  "At a i =
     (if i < 0 \<or> i \<ge> int (length a) then Value []
      else (case index a i of Panic m \<Rightarrow> Panic m | Value s \<Rightarrow> Value (TrimSuffix s [NL])))"

subsection \<open>Rendering\<close>

text \<open>The decimal text that \<open>%d\<close> prints for an \<open>int\<close>.\<close>

fun digits :: "nat \<Rightarrow> string" where
  "digits n =
     (if n < 10 then [char_of (48 + n)] else digits (n div 10) @ [char_of (48 + n mod 10)])"

declare digits.simps [simp del]

definition itoa :: "int \<Rightarrow> string" where
  "itoa i = (if i < 0 then CHR ''-'' # digits (nat (- i)) else digits (nat i))"

text \<open>
  \<open>Expanded.String\<close> formats the expression as source text: the name, then the body
  with its final newline removed, after a single space or, when the body starts on a
  new line, as it is; then a newline.
\<close>

definition String :: "Expanded \<Rightarrow> string" where
  "String e =
     (let tail = TrimSuffix (Body (Expression e)) [NL];
          tailStartsOnNewline = HasPrefix tail [NL]
      in if tailStartsOnNewline then Name (Expression e) @ tail @ [NL]
         else (let tail' = TrimLeftSpace tail
               in if tail' \<noteq> [] then Name (Expression e) @ [SP] @ tail' @ [NL]
                  else Name (Expression e) @ [NL]))"

text \<open>\<open>cmp.Or(e.File, "<unknown>")\<close>.\<close>

definition fileOr :: "string \<Rightarrow> string" where
  "fileOr f = (if f = [] then ''<unknown>'' else f)"

definition Where :: "Expanded \<Rightarrow> string" where
  "Where e =
     (let file = fileOr (File e); frames = Stack e
      in if length frames > 0
         then (let bottom = hd frames; caller = last frames
               in file @ '':'' @ itoa (Line (Expression bottom)) @ '': ''
                    @ Name (Expression caller) @ ''@'' @ itoa (Line (Expression e)))
         else file @ '':'' @ itoa (Line (Expression e)) @ '': main@''
                @ itoa (Line (Expression e)))"

definition locationForError :: "Expanded \<Rightarrow> string" where
  "locationForError e =
     (if length (Stack e) = 0
      then (let file = fileOr (File e)
            in if Line (Expression e) = 0 then file
               else file @ '':'' @ itoa (Line (Expression e)))
      else Where e)"


section \<open>The tokenizer\<close>

text \<open>
  The values of Go's \<open>error\<close> that the package produces: \<open>io.EOF\<close>; a \<open>*SyntaxError\<close>
  with its line and message; an \<open>*ExpressionError\<close> pairing an expression with its
  cause; the errors made by \<open>errors.New\<close> and by \<open>fmt.Errorf\<close> without \<open>%q\<close>, as their
  text (\<open>ErrorText\<close>, which also stands for the errors of the file system); and the
  errors made by \<open>fmt.Errorf\<close> with \<open>%q\<close>, as the arguments of the format.
\<close>

datatype error =
    EOF
  | SyntaxError int string
  | ExpressionError Expanded error
  | ErrorText string
  | IncludeSlash string
  | IncludeExtension string
  | DefineInvalidName string
  | TemplateRedefined string string int
  | ArgumentMismatch string int int
  | UnknownParameter string
  | NestedDefine string string

text \<open>
  The method \<open>Error\<close>; \<open>quote\<close> stands for the rendering of a string by \<open>%q\<close>
  (\<open>strconv.Quote\<close>).
\<close>

fun Error :: "(string \<Rightarrow> string) \<Rightarrow> error \<Rightarrow> string" where
  "Error quote EOF = ''EOF''"
| "Error quote (SyntaxError ln msg) = itoa ln @ '': '' @ msg"
| "Error quote (ExpressionError e cause) = locationForError e @ '': '' @ Error quote cause"
| "Error quote (ErrorText msg) = msg"
| "Error quote (IncludeSlash path) =
     ''include: path '' @ quote path @ '' contains '' @ [CHR 0x27] @ ''/'' @ [CHR 0x27]
       @ ''; only root-level includes are allowed''"
| "Error quote (IncludeExtension path) =
     ''include: path '' @ quote path
       @ '' has .linebased extension; the extension is not required and will be added automatically''"
| "Error quote (DefineInvalidName n) =
     ''define: name contains invalid characters: '' @ quote n"
| "Error quote (TemplateRedefined n file ln) =
     ''template '' @ quote n @ '' redefined; previous define: '' @ file @ '':'' @ itoa ln"
| "Error quote (ArgumentMismatch n want got) =
     ''template '' @ quote n @ '' expects '' @ itoa want @ '' arguments, got '' @ itoa got"
| "Error quote (UnknownParameter n) = ''unknown parameter reference: '' @ quote n"
| "Error quote (NestedDefine n text) =
     ''expansion of '' @ quote n @ '' contains illegal nested define: '' @ quote text"

text \<open>
  A \<open>Decoder\<close> holds a buffered reader and the current line number. The reader is
  modelled by the bytes it has not yet delivered: it reads from memory (a
  \<open>strings.Reader\<close>, a file of a map file system), where a read past the last byte
  returns \<open>io.EOF\<close> and no other error arises.
\<close>

record Decoder =
  input :: string
  line :: int

definition NewDecoder :: "string \<Rightarrow> Decoder" where
  "NewDecoder r = \<lparr>input = r, line = 0\<rparr>"

text \<open>
  \<open>bufio.Reader.ReadString('\n')\<close>: the bytes up to and including the first newline;
  without a newline, all remaining bytes together with \<open>io.EOF\<close> (the flag).
\<close>

definition ReadString :: "string \<Rightarrow> (string \<times> bool) \<times> string" where
  "ReadString inp =
     (case IndexAny inp [NL] of
        None \<Rightarrow> ((inp, True), [])
      | Some i \<Rightarrow> ((take (Suc i) inp, False), drop (Suc i) inp))"

definition readLine :: "Decoder \<Rightarrow> (string \<times> bool) \<times> Decoder" where
  "readLine d =
     (case ReadString (input d) of
        (r, rest) \<Rightarrow> (r, d\<lparr>line := line d + 1, input := rest\<rparr>))"

text \<open>\<open>peek\<close> returns the next byte without consuming it; byte 0 and \<open>io.EOF\<close> at the end.\<close>

definition peek :: "Decoder \<Rightarrow> char \<times> bool" where
  "peek d = (case input d of [] \<Rightarrow> (CHR 0x00, True) | b # _ \<Rightarrow> (b, False))"

definition parseBody :: "string \<Rightarrow> string \<times> string" where
  "parseBody body =
     (case IndexAny body [SP, TAB, NL] of
        None \<Rightarrow> (TrimSpace body, [])
      | Some i \<Rightarrow> (TrimSpace (take i body), TrimLeft (drop i body) [SP, TAB]))"

definition makeExpr :: "int \<Rightarrow> string \<Rightarrow> string \<Rightarrow> Expression" where
  "makeExpr ln comment body =
     (case parseBody body of
        (name, tail) \<Rightarrow> \<lparr>Line = ln, Comment = comment, Name = name, Body = tail\<rparr>)"

lemma IndexAny_Some:
  "IndexAny s cs = Some i \<Longrightarrow> i < length s \<and> s ! i \<in> set cs \<and> set (take i s) \<inter> set cs = {}"
proof (induction s arbitrary: i)
  case Nil
  then show ?case by simp
next
  case (Cons c s)
  show ?case
  proof (cases "c \<in> set cs")
    case True
    with Cons.prems show ?thesis by simp
  next
    case False
    with Cons.prems obtain j where j: "IndexAny s cs = Some j" "i = Suc j" by auto
    from Cons.IH [OF j(1)] False j(2) show ?thesis by simp
  qed
qed

lemma IndexAny_None: "IndexAny s cs = None \<longleftrightarrow> set s \<inter> set cs = {}"
  by (induction s) auto

lemma ReadString_concat: "ReadString inp = ((l, eof), rest) \<Longrightarrow> inp = l @ rest"
  by (auto simp: ReadString_def split: option.splits)

lemma ReadString_empty: "ReadString inp = (([], eof), rest) \<Longrightarrow> eof \<and> inp = []"
  by (auto simp: ReadString_def split: option.splits)

lemma readLine_line: "readLine d = (r, d') \<Longrightarrow> line d' = line d + 1"
  by (auto simp: readLine_def split: prod.splits)

lemma readLine_input:
  "readLine d = ((l, eof), d') \<Longrightarrow> input d = l @ input d'"
  by (auto simp: readLine_def split: prod.splits dest: ReadString_concat)

lemma readLine_shorter:
  "readLine d = ((l, False), d') \<Longrightarrow> length (input d') < length (input d)"
proof -
  assume rl: "readLine d = ((l, False), d')"
  then have "l \<noteq> []"
    by (auto simp: readLine_def split: prod.splits dest: ReadString_empty)
  moreover have "input d = l @ input d'" using rl by (rule readLine_input)
  ultimately show ?thesis by simp
qed

lemma readLine_shorter_Cons:
  "readLine d = ((b # bs, eof), d') \<Longrightarrow> length (input d') < length (input d)"
  by (drule readLine_input) simp

text \<open>
  The loop of \<open>Decode\<close> that reads the continuation lines of a command: every line that
  starts with a tab, the tab stripped.
\<close>

function readContinuation :: "Decoder \<Rightarrow> string \<Rightarrow> string \<times> Decoder" where
  "readContinuation d body =
     (case peek d of
        (b, eof) \<Rightarrow>
          if b \<noteq> TAB then (body, d)
          else (case readLine d of
                  ((l, eof'), d') \<Rightarrow>
                    (let body' = body @ drop 1 l
                     in if eof' then (body', d') else readContinuation d' body')))"
  by pat_completeness auto
termination
  apply (relation "measure (\<lambda>(d, body). length (input d))")
   apply simp
  apply simp
  apply (metis readLine_shorter)
  done

declare readContinuation.simps [simp del]

text \<open>
  The outer loop of \<open>Decode\<close>, with the comment lines gathered so far. At the place where
  the source tests \<open>comments.Len()+body.Len() > 0\<close> nothing has been written to \<open>body\<close>.
  The line is empty only at the end of input (\<open>ReadString\<close> returns an empty line with
  \<open>io.EOF\<close> only); otherwise the switch is on its first byte.
\<close>

function Decode_loop :: "Decoder \<Rightarrow> string \<Rightarrow> (error + Expression) \<times> Decoder" where
  "Decode_loop d comments =
     (case readLine d of
        ((l, eof), d1) \<Rightarrow>
          (case l of
             [] \<Rightarrow>
               if length comments + length ([] :: string) > 0
               then (let c = comments;
                         exprLine = (if \<not> HasSuffix c [NL] then line d1 - 1 else line d1)
                     in (Inr (makeExpr exprLine c []), d1))
               else (Inl EOF, d1)
           | b # _ \<Rightarrow>
               if b = NL then (Inr (makeExpr (line d1) comments l), d1)
               else if b = HASH then Decode_loop d1 (comments @ l)
               else if b = SP \<or> b = TAB
               then (Inl (SyntaxError (line d1) ''unexpected whitespace at start of line''), d1)
               else (let startingLine = line d1
                     in case readContinuation d1 l of
                          (body, d2) \<Rightarrow> (Inr (makeExpr startingLine comments body), d2))))"
  by pat_completeness auto
termination
  apply (relation "measure (\<lambda>(d, comments). length (input d))")
   apply simp
  apply simp
  apply (metis readLine_shorter_Cons)
  done

declare Decode_loop.simps [simp del]

definition Decode :: "Decoder \<Rightarrow> (error + Expression) \<times> Decoder" where
  "Decode d = Decode_loop d []"


text \<open>Every expression that \<open>Decode\<close> returns has consumed input.\<close>

lemma readLine_le: "readLine d = (r, d') \<Longrightarrow> length (input d') \<le> length (input d)"
  by (cases r) (auto dest: readLine_input)

lemma readContinuation_le:
  "readContinuation d b = (b', d') \<Longrightarrow> length (input d') \<le> length (input d)"
proof (induction d b arbitrary: b' d' rule: readContinuation.induct)
  case (1 d body)
  obtain c e where pk: "peek d = (c, e)" by (cases "peek d")
  obtain l e' d1 where rl: "readLine d = ((l, e'), d1)"
    by (metis surj_pair)
  have le1: "length (input d1) \<le> length (input d)" using rl by (rule readLine_le)
  show ?case
  proof (cases "c \<noteq> TAB")
    case True
    with pk "1.prems" show ?thesis by (simp add: readContinuation.simps [of d])
  next
    case False
    note tab = this
    show ?thesis
    proof (cases e')
      case True
      with tab pk rl "1.prems" le1 show ?thesis
        by (auto simp: readContinuation.simps [of d])
    next
      case False
      with tab pk rl "1.prems"
      have rc: "readContinuation d1 (body @ drop 1 l) = (b', d')"
        by (simp add: readContinuation.simps [of d])
      have "length (input d') \<le> length (input d1)"
        using "1.IH" [OF pk [symmetric] _ rl [symmetric] refl refl _ rc] tab False by simp
      with le1 show ?thesis by simp
    qed
  qed
qed

lemma Decode_loop_consumes:
  "Decode_loop d c = (Inr e, d') \<Longrightarrow>
     length (input d') < length (input d) \<or> (c \<noteq> [] \<and> length (input d') \<le> length (input d))"
proof (induction d c arbitrary: e d' rule: Decode_loop.induct)
  case (1 d comments)
  obtain l eof d1 where rl: "readLine d = ((l, eof), d1)"
    by (metis surj_pair)
  have le1: "length (input d1) \<le> length (input d)" using rl by (rule readLine_le)
  show ?case
  proof (cases l)
    case Nil
    with rl "1.prems" le1 show ?thesis
      by (auto simp: Decode_loop.simps [of d] Let_def split: if_splits)
  next
    case (Cons b bs)
    with rl have lt: "length (input d1) < length (input d)"
      by (auto dest: readLine_shorter_Cons)
    consider (nl) "b = NL" | (hash) "b \<noteq> NL" "b = HASH"
      | (ws) "b \<noteq> NL" "b \<noteq> HASH" "b = SP \<or> b = TAB"
      | (cmd) "b \<noteq> NL" "b \<noteq> HASH" "\<not> (b = SP \<or> b = TAB)"
      by blast
    then show ?thesis
    proof cases
      case nl
      with rl Cons "1.prems" lt show ?thesis
        by (auto simp: Decode_loop.simps [of d])
    next
      case hash
      with rl Cons "1.prems"
      have "Decode_loop d1 (comments @ l) = (Inr e, d')"
        by (simp add: Decode_loop.simps [of d])
      from "1.IH" [OF rl [symmetric] refl Cons hash(1) hash(2) this]
      have "length (input d') \<le> length (input d1)" by auto
      with lt show ?thesis by simp
    next
      case ws
      with rl Cons "1.prems" show ?thesis
        by (auto simp: Decode_loop.simps [of d])
    next
      case cmd
      obtain body d2 where rc: "readContinuation d1 l = (body, d2)"
        by (metis surj_pair)
      then have "length (input d2) \<le> length (input d1)" by (rule readContinuation_le)
      moreover from cmd rl Cons "1.prems" rc have "d' = d2"
        by (auto simp: Decode_loop.simps [of d] Let_def)
      ultimately show ?thesis using lt by simp
    qed
  qed
qed

lemma Decode_consumes:
  "Decode d = (Inr e, d') \<Longrightarrow> length (input d') < length (input d)"
  unfolding Decode_def by (drule Decode_loop_consumes) simp


section \<open>Library functions used by the expansion engine\<close>

subsection \<open>\<open>os.Expand\<close>\<close>

definition isShellSpecialVar :: "char \<Rightarrow> bool" where
  "isShellSpecialVar c = (c \<in> set ''*#$@!?-0123456789'')"

definition isAlphaNum :: "char \<Rightarrow> bool" where
  "isAlphaNum c =
     (c = CHR ''_'' \<or> (CHR ''0'' \<le> c \<and> c \<le> CHR ''9'') \<or> (CHR ''a'' \<le> c \<and> c \<le> CHR ''z'')
        \<or> (CHR ''A'' \<le> c \<and> c \<le> CHR ''Z''))"

text \<open>
  \<open>getShellName\<close> returns the name that begins the string and the number of bytes
  consumed to extract it. \<open>os.Expand\<close> calls it on a non-empty string only.
\<close>

fun getShellName :: "string \<Rightarrow> string \<times> nat" where
  "getShellName [] = ([], 0)"
| "getShellName (c # r) =
     (if c = CHR ''{''
      then (if length (c # r) > 2 \<and> isShellSpecialVar (r ! 0) \<and> r ! 1 = CHR ''}''
            then ([r ! 0], 3)
            else (case IndexAny r ''}'' of
                    Some k \<Rightarrow> if k = 0 then ([], 2) else (take k r, k + 2)
                  | None \<Rightarrow> ([], 1)))
      else if isShellSpecialVar c then ([c], 1)
      else (takeWhile isAlphaNum (c # r), length (takeWhile isAlphaNum (c # r))))"

text \<open>
  \<open>os.Expand\<close> replaces \<open>${var}\<close> or \<open>$var\<close> in the string by what \<open>mapping\<close>
  returns. The callback of the engine writes a variable of its caller; the state \<open>'s\<close>
  threads it through the calls, in the order in which the scan makes them.
\<close>

function Expand :: "string \<Rightarrow> (string \<Rightarrow> 's \<Rightarrow> string \<times> 's) \<Rightarrow> 's \<Rightarrow> string \<times> 's" where
  "Expand [] mapping st = ([], st)"
| "Expand (c # cs) mapping st =
     (if c = DOLLAR \<and> cs \<noteq> []
      then (case getShellName cs of
              (nm, w) \<Rightarrow>
                (case (if nm = [] \<and> w > 0 then ([], st)
                       else if nm = [] then ([c], st)
                       else mapping nm st) of
                   (piece, st1) \<Rightarrow>
                     (case Expand (drop w cs) mapping st1 of
                        (r, st2) \<Rightarrow> (piece @ r, st2))))
      else (case Expand cs mapping st of (r, st1) \<Rightarrow> (c # r, st1)))"
  by pat_completeness auto
termination
  by (relation "measure (\<lambda>(s, m, st). length s)") auto

subsection \<open>\<open>path.Join\<close>\<close>

text \<open>
  \<open>path.Clean\<close> works on a buffer \<open>out\<close> that it appends to and truncates, and on the
  index \<open>dotdot\<close> in it where backtracking over a \<open>..\<close> element must stop.
  \<open>backtrack\<close> is the truncation at a \<open>..\<close> element (\<open>w\<close> is the new length of \<open>out\<close>).
\<close>

function backtrack :: "string \<Rightarrow> nat \<Rightarrow> nat \<Rightarrow> nat" where
  "backtrack out dotdot w =
     (if w > dotdot \<and> out ! w \<noteq> CHR ''/'' then backtrack out dotdot (w - 1) else w)"
  by pat_completeness auto
termination
  by (relation "measure (\<lambda>(out, dotdot, w). w)") auto

declare backtrack.simps [simp del]

function Clean_loop :: "bool \<Rightarrow> string \<Rightarrow> string \<Rightarrow> nat \<Rightarrow> string" where
  "Clean_loop rooted p out dotdot =
     (case p of
        [] \<Rightarrow> out
      | c # p1 \<Rightarrow>
          if c = CHR ''/'' then Clean_loop rooted p1 out dotdot
          else if c = CHR ''.'' \<and> (p1 = [] \<or> hd p1 = CHR ''/'')
          then Clean_loop rooted p1 out dotdot
          else if c = CHR ''.'' \<and> hd p1 = CHR ''.'' \<and> (tl p1 = [] \<or> hd (tl p1) = CHR ''/'')
          then (if length out > dotdot
                then Clean_loop rooted (tl p1)
                       (take (backtrack out dotdot (length out - 1)) out) dotdot
                else if \<not> rooted
                then (let out' = (if length out > 0 then out @ ''/'' else out) @ ''..''
                      in Clean_loop rooted (tl p1) out' (length out'))
                else Clean_loop rooted (tl p1) out dotdot)
          else (let out' = (if (rooted \<and> length out \<noteq> 1) \<or> (\<not> rooted \<and> length out \<noteq> 0)
                            then out @ ''/'' else out)
                in Clean_loop rooted (dropWhile (\<lambda>x. x \<noteq> CHR ''/'') p)
                     (out' @ takeWhile (\<lambda>x. x \<noteq> CHR ''/'') p) dotdot))"
  by pat_completeness auto
termination
  apply (relation "measure (\<lambda>(rooted, p, out, dotdot). length p)")
       apply simp_all
  apply (metis length_dropWhile_le le_imp_less_Suc)
  done

declare Clean_loop.simps [simp del]

definition Clean :: "string \<Rightarrow> string" where
  "Clean path =
     (if path = [] then ''.''
      else (let rooted = (hd path = CHR ''/'');
                out = (if rooted then Clean_loop True (drop 1 path) ''/'' 1
                       else Clean_loop False path [] 0)
            in if out = [] then ''.'' else out))"

definition Join :: "string list \<Rightarrow> string" where
  "Join elem =
     (if sum_list (map length elem) = 0 then []
      else Clean (fold (\<lambda>e buf. if length buf > 0 \<or> e \<noteq> []
                                  then (if length buf > 0 then buf @ ''/'' else buf) @ e
                                  else buf) elem []))"


section \<open>The expansion engine\<close>

subsection \<open>State\<close>

text \<open>
  The call stack: the frames of the templates being expanded and the set of their names
  (the keys of the map \<open>seen\<close>, whose values are all \<open>true\<close>).
\<close>

record stack =
  frames :: "Expanded list"
  seen :: "string set"

text \<open>
  A stored definition: the \<open>define\<close> expression (the embedded \<open>Expanded\<close>, which gives
  \<open>t.File\<close> and \<open>t.Line\<close>), and the fields \<open>name\<close>, \<open>params\<close> and \<open>body\<close>.
\<close>

record template =
  texpanded :: Expanded
  tname :: string
  tparams :: "string list"
  tbody :: string

text \<open>A decoder and its file name (the field \<open>file\<close>).\<close>

record decoderFrame =
  dec :: Decoder
  fileName :: string

text \<open>
  The file system answers \<open>Open\<close> with an error or with the bytes of the file.
  \<open>MapFS\<close> is the in-memory file system of the package's tests, whose \<open>Open\<close> of a
  missing name fails with the text \<open>open NAME: file does not exist\<close>.
\<close>

type_synonym FS = "string \<Rightarrow> error + string"

definition MapFS :: "(string \<times> string) list \<Rightarrow> FS" where
  "MapFS files fname =
     (case map_of files fname of
        Some data \<Rightarrow> Inr data
      | None \<Rightarrow> Inl (ErrorText (''open '' @ fname @ '': file does not exist'')))"

text \<open>
  The map \<open>defs\<close> is a list of pairs of distinct names and templates, in the order of
  definition. \<open>err\<close> is the sticky error: \<open>None\<close> is Go's \<open>nil\<close>.
\<close>

record ExpandingDecoder =
  fsys :: FS
  defs :: "(string \<times> template) list"
  root :: string
  decoderStack :: "decoderFrame list"
  pending :: "Expanded list"
  callStack :: stack
  includeStack :: "string list"
  err :: "error option"

text \<open>What a call returns: its values, an error, or a panic that unwinds it.\<close>

datatype 'a result = Ok 'a | Err error | Panicked panic

definition NewExpandingDecoder :: "string \<Rightarrow> FS \<Rightarrow> ExpandingDecoder" where
  "NewExpandingDecoder fname fs =
     (let d = \<lparr>fsys = fs, defs = [], root = [], decoderStack = [], pending = [],
                callStack = \<lparr>frames = [], seen = {}\<rparr>, includeStack = [], err = None\<rparr>
      in case fs fname of
           Inl e \<Rightarrow>
             d\<lparr>err := Some (ExpressionError
                              (Expanded (zeroExpression\<lparr>Line := 1\<rparr>) fname []) e)\<rparr>
         | Inr f \<Rightarrow>
             d\<lparr>decoderStack := [\<lparr>dec = NewDecoder f, fileName = fname\<rparr>],
               includeStack := [fname]\<rparr>)"

definition SetRoot :: "ExpandingDecoder \<Rightarrow> string \<Rightarrow> ExpandingDecoder" where
  "SetRoot d r = d\<lparr>root := r\<rparr>"

definition filePath :: "ExpandingDecoder \<Rightarrow> string \<Rightarrow> string" where
  "filePath d fname = Join [root d, fname]"

subsection \<open>The call stack and the include stack\<close>

definition push :: "stack \<Rightarrow> Expanded \<Rightarrow> bool \<times> stack" where
  "push s expr =
     (let frames' = frames s @ [expr];
          initial = (Name (Expression expr) \<notin> seen s)
      in (initial, \<lparr>frames = frames', seen = insert (Name (Expression expr)) (seen s)\<rparr>))"

definition pop :: "stack \<Rightarrow> (Expanded \<times> stack) checked" where
  "pop s =
     (if length (frames s) = 0 then Panic PopEmptyStack
      else (let expr = last (frames s)
            in Value (expr, \<lparr>frames = butlast (frames s),
                              seen = seen s - {Name (Expression expr)}\<rparr>)))"

definition framesCopy :: "stack \<Rightarrow> Expanded list" where
  "framesCopy s = frames s"

definition writeStack :: "string \<Rightarrow> Expanded list \<Rightarrow> string" where
  "writeStack prefix fs = concat (map (\<lambda>expr. prefix @ Where expr @ ''> '' @ String expr) fs)"

definition pushInclude :: "ExpandingDecoder \<Rightarrow> string \<Rightarrow> bool \<times> ExpandingDecoder" where
  "pushInclude d fname =
     (if fname \<in> set (includeStack d) then (False, d)
      else (True, d\<lparr>includeStack := includeStack d @ [fname]\<rparr>))"

definition popInclude :: "ExpandingDecoder \<Rightarrow> ExpandingDecoder" where
  "popInclude d =
     (if length (includeStack d) = 0 then d
      else d\<lparr>includeStack := butlast (includeStack d)\<rparr>)"

definition includeCycle :: "ExpandingDecoder \<Rightarrow> string \<Rightarrow> string" where
  "includeCycle d next = concat (map (\<lambda>n. n @ '' -> '') (includeStack d)) @ next"

subsection \<open>Definitions\<close>

definition makeTemplate :: "Expanded \<Rightarrow> (error + template) checked" where
  "makeTemplate decl =
     (if Name (Expression decl) \<noteq> ''define''
      then Panic (ExpectedDefine (Name (Expression decl)))
      else (case CutNL (Body (Expression decl)) of
              (head, body, _) \<Rightarrow>
                (case cutField head of
                   (name, rest) \<Rightarrow>
                     if name = [] then Value (Inl (ErrorText ''define: missing name argument''))
                     else if ContainsAny name [SP, CHR 0x0D, CHR 0x0B, CHR 0x0C]
                     then Value (Inl (DefineInvalidName name))
                     else Value (Inr \<lparr>texpanded = decl, tname = name,
                                       tparams = Fields rest, tbody = body\<rparr>))))"

text \<open>
  The method \<open>define\<close> (\<open>define'\<close> here) returns its error, if any, and the engine with
  the template stored.
\<close>

definition define' :: "ExpandingDecoder \<Rightarrow> Expanded \<Rightarrow> (error option) checked \<times> ExpandingDecoder" where
  "define' d expr =
     (case makeTemplate expr of
        Panic p \<Rightarrow> (Panic p, d)
      | Value (Inl e) \<Rightarrow> (Value (Some e), d)
      | Value (Inr t) \<Rightarrow>
          (case map_of (defs d) (tname t) of
             Some prev \<Rightarrow>
               (Value (Some (TemplateRedefined (tname t) (File (texpanded prev))
                               (Line (Expression (texpanded prev))))), d)
           | None \<Rightarrow> (Value None, d\<lparr>defs := defs d @ [(tname t, t)]\<rparr>)))"


subsection \<open>Expansion\<close>

text \<open>\<open>slices.Index\<close>: the first index of \<open>x\<close>; \<open>None\<close> is Go's \<open>-1\<close>.\<close>

fun Index :: "'a list \<Rightarrow> 'a \<Rightarrow> nat option" where
  "Index [] x = None"
| "Index (y # ys) x = (if y = x then Some 0 else map_option Suc (Index ys x))"

text \<open>
  The closure \<open>getParam\<close> of \<open>expandTemplate\<close>. It reads \<open>t.params\<close> and \<open>args\<close> and writes
  the variable \<open>unknownParam\<close>, which is the state here. \<open>args\<close> has the length of
  \<open>t.params\<close> where the closure is called, so \<open>args[i]\<close> is in range.
\<close>

definition getParam :: "template \<Rightarrow> string list \<Rightarrow> string \<Rightarrow> string \<Rightarrow> string \<times> string" where
  "getParam t args pname unknownParam =
     (case Index (tparams t) pname of
        Some i \<Rightarrow> (TrimSuffix (args ! i) [NL], unknownParam)
      | None \<Rightarrow> ([], if unknownParam = [] then pname else unknownParam))"

definition withStack :: "Expanded \<Rightarrow> Expanded list \<Rightarrow> Expanded" where
  "withStack e st = Expanded (Expression e) (File e) st"

text \<open>The case \<open>"include"\<close> of the switch in \<open>expand\<close>.\<close>

definition expandInclude ::
  "ExpandingDecoder \<Rightarrow> Expanded \<Rightarrow> (Expanded option) result \<times> ExpandingDecoder" where
  "expandInclude d expr =
     (case At (ParseArgs (Body (Expression expr)) 1) 0 of
        Panic p \<Rightarrow> (Panicked p, d)
      | Value includePath \<Rightarrow>
          if includePath = []
          then (Err (ExpressionError expr (ErrorText ''include: missing filename'')), d)
          else if CHR ''/'' \<in> set includePath
          then (Err (ExpressionError expr (IncludeSlash includePath)), d)
          else if HasSuffix includePath ''.linebased''
          then (Err (ExpressionError expr (IncludeExtension includePath)), d)
          else (let includePath' = includePath @ ''.linebased''
                in case pushInclude d includePath' of
                     (False, d1) \<Rightarrow>
                       (Err (ExpressionError expr
                               (ErrorText (''include cycle detected: ''
                                             @ includeCycle d1 includePath'))), d1)
                   | (True, d1) \<Rightarrow>
                       (case fsys d1 includePath' of
                          Inl e \<Rightarrow> (Err (ExpressionError expr e), popInclude d1)
                        | Inr f \<Rightarrow>
                            (Ok None,
                             d1\<lparr>decoderStack := decoderStack d1
                                   @ [\<lparr>dec = NewDecoder f, fileName = includePath'\<rparr>]\<rparr>))))"


lemma Decode_consumes_sym:
  "(Inr e, d') = Decode d \<Longrightarrow> length (input d') < length (input d)"
  using Decode_consumes [of d e d'] by simp

text \<open>
  \<open>expand\<close> processes a single expression, \<open>expandTemplate\<close> expands a template call,
  and \<open>expandLoop\<close> is the loop of \<open>expandTemplate\<close> over the expressions of the
  template's body (\<open>dc\<close> is its decoder, \<open>expanded\<close> the results so far). They call
  each other as in the source, on the engine they all mutate. The first argument
  bounds the depth of nested template calls: \<open>expand\<close> returns \<open>None\<close> where a call
  would nest deeper. The deferred \<open>pop\<close> of \<open>expandTemplate\<close> runs after everything
  that follows the successful \<open>push\<close>.
\<close>

function expand ::
    "nat \<Rightarrow> ExpandingDecoder \<Rightarrow> Expanded \<Rightarrow> ((Expanded option) result \<times> ExpandingDecoder) option"
  and expandTemplate ::
    "nat \<Rightarrow> ExpandingDecoder \<Rightarrow> template \<Rightarrow> Expanded
       \<Rightarrow> ((Expanded option) result \<times> ExpandingDecoder) option"
  and expandLoop ::
    "nat \<Rightarrow> ExpandingDecoder \<Rightarrow> template \<Rightarrow> Expanded \<Rightarrow> string list \<Rightarrow> Decoder
       \<Rightarrow> Expanded list \<Rightarrow> ((Expanded option) result \<times> ExpandingDecoder) option"
where
  "expand n d expr =
     (if Name (Expression expr) = ''define''
      then (case define' d expr of
              (Panic p, d') \<Rightarrow> Some (Panicked p, d')
            | (Value (Some e), d') \<Rightarrow> Some (Err (ExpressionError expr e), d')
            | (Value None, d') \<Rightarrow> Some (Ok None, d'))
      else if Name (Expression expr) = ''include'' then Some (expandInclude d expr)
      else if Name (Expression expr) = [] then Some (Ok (Some expr), d)
      else (case map_of (defs d) (Name (Expression expr)) of
              None \<Rightarrow> Some (Ok (Some (withStack expr (framesCopy (callStack d)))), d)
            | Some t \<Rightarrow>
                if tbody t = []
                then Some (Ok (Some (withStack expr (framesCopy (callStack d)))), d)
                else (case n of 0 \<Rightarrow> None | Suc m \<Rightarrow> expandTemplate m d t expr)))"
| "expandTemplate n d t callsite0 =
     (let callsite = withStack callsite0 (framesCopy (callStack d))
      in case push (callStack d) callsite of
           (initial, cs) \<Rightarrow>
             (let d1 = d\<lparr>callStack := cs\<rparr>
              in if \<not> initial
                 then Some (Err (ExpressionError callsite
                                   (ErrorText (TrimSuffix
                                      (''recursion detected in template ''
                                         @ Name (Expression callsite) @ '':'' @ [NL]
                                         @ writeStack ''    '' (frames (callStack d1))) [NL]))),
                            d1)
                 else (case (let args = ParseArgs (Body (Expression callsite))
                                          (int (length (tparams t)))
                             in if length args \<noteq> length (tparams t)
                                then Some (Err (ExpressionError callsite
                                                  (ArgumentMismatch (tname t)
                                                     (int (length (tparams t)))
                                                     (int (length args)))), d1)
                                else expandLoop n d1 t callsite args (NewDecoder (tbody t)) []) of
                         None \<Rightarrow> None
                       | Some (res, d2) \<Rightarrow>
                           (case pop (callStack d2) of
                              Panic p \<Rightarrow> Some (Panicked p, d2)
                            | Value (_, cs2) \<Rightarrow> Some (res, d2\<lparr>callStack := cs2\<rparr>)))))"
| "expandLoop n d t callsite args dc expanded =
     (case Decode dc of
        (Inl e, dc') \<Rightarrow>
          (case e of
             EOF \<Rightarrow>
               if length expanded = 0 then Some (Ok None, d)
               else Some (Ok (Some (hd expanded)), d\<lparr>pending := pending d @ tl expanded\<rparr>)
           | SyntaxError ln msg \<Rightarrow>
               Some (Err (ExpressionError
                            (Expanded (zeroExpression\<lparr>Line := ln\<rparr>) (File (texpanded t)) [])
                            (ErrorText msg)), d)
           | _ \<Rightarrow> Some (Err e, d))
      | (Inr rawExpr, dc') \<Rightarrow>
          (case Expand (Name rawExpr) (getParam t args) [] of
             (name', u1) \<Rightarrow>
               (case Expand (Body rawExpr) (getParam t args) u1 of
                  (body', unknownParam) \<Rightarrow>
                    (let expr = Expanded (rawExpr\<lparr>Name := name', Body := body'\<rparr>)
                                  (File (texpanded t)) []
                     in if unknownParam \<noteq> []
                        then Some (Err (ExpressionError (texpanded t)
                                          (UnknownParameter unknownParam)), d)
                        else if name' = ''define''
                        then Some (Err (ExpressionError callsite
                                          (NestedDefine (tname t) (String expr))), d)
                        else (case expand n d expr of
                                None \<Rightarrow> None
                              | Some (Err e, d') \<Rightarrow> Some (Err e, d')
                              | Some (Panicked p, d') \<Rightarrow> Some (Panicked p, d')
                              | Some (Ok None, d') \<Rightarrow>
                                  expandLoop n d' t callsite args dc' expanded
                              | Some (Ok (Some result), d') \<Rightarrow>
                                  (let result' =
                                     (if length (Stack result) = 0
                                      then withStack result (framesCopy (callStack d'))
                                      else result)
                                   in expandLoop n d' t callsite args dc'
                                        (expanded @ [result'])))))))"
  by pat_completeness auto
termination
  apply (relation "inv_image (less_than <*lex*> less_than <*lex*> less_than)
      (\<lambda>x. case x of
              Inl (n, d, e) \<Rightarrow> (n, 0 :: nat, 0 :: nat)
            | Inr (Inl (n, d, t, c)) \<Rightarrow> (n, 2, 0)
            | Inr (Inr (n, d, t, c, a, dc, ex)) \<Rightarrow> (n, 1, length (input dc)))")
       apply (intro wf_inv_image wf_lex_prod wf_less_than)
      apply simp_all
   apply (erule Decode_consumes_sym)+
  done

declare expand.simps [simp del] expandTemplate.simps [simp del] expandLoop.simps [simp del]

subsection \<open>Decode\<close>

text \<open>
  The loop of the method \<open>Decode\<close> of \<open>ExpandingDecoder\<close>. Each turn of the loop takes
  one unit of the first argument, and the loop returns \<open>None\<close> when none is left.
\<close>

fun ExpandingDecode_loop ::
  "nat \<Rightarrow> ExpandingDecoder \<Rightarrow> (Expanded result \<times> ExpandingDecoder) option" where
  "ExpandingDecode_loop 0 d = None"
| "ExpandingDecode_loop (Suc n) d =
     (if length (pending d) > 0
      then Some (Ok (hd (pending d)), d\<lparr>pending := tl (pending d)\<rparr>)
      else if length (decoderStack d) = 0
      then Some (Err EOF, d\<lparr>err := Some EOF\<rparr>)
      else (let frame = last (decoderStack d)
            in case Decode (dec frame) of
                 (Inl e, dc') \<Rightarrow>
                   (let d1 = d\<lparr>decoderStack :=
                                  butlast (decoderStack d) @ [frame\<lparr>dec := dc'\<rparr>]\<rparr>
                    in case e of
                         EOF \<Rightarrow>
                           ExpandingDecode_loop n
                             (popInclude (d1\<lparr>decoderStack := butlast (decoderStack d1)\<rparr>))
                       | SyntaxError ln msg \<Rightarrow>
                           (let e' = ExpressionError
                                       (Expanded (zeroExpression\<lparr>Line := ln\<rparr>)
                                          (filePath d (fileName frame)) [])
                                       (ErrorText msg)
                            in Some (Err e', d1\<lparr>err := Some e'\<rparr>))
                       | _ \<Rightarrow> Some (Err e, d1\<lparr>err := Some e\<rparr>))
               | (Inr rawExpr, dc') \<Rightarrow>
                   (let d1 = d\<lparr>decoderStack :=
                                  butlast (decoderStack d) @ [frame\<lparr>dec := dc'\<rparr>]\<rparr>;
                        expr = Expanded rawExpr (filePath d (fileName frame)) []
                    in case expand n d1 expr of
                         None \<Rightarrow> None
                       | Some (Err e, d2) \<Rightarrow> Some (Err e, d2\<lparr>err := Some e\<rparr>)
                       | Some (Panicked p, d2) \<Rightarrow> Some (Panicked p, d2)
                       | Some (Ok (Some r), d2) \<Rightarrow> Some (Ok r, d2)
                       | Some (Ok None, d2) \<Rightarrow> ExpandingDecode_loop n d2)))"

declare ExpandingDecode_loop.simps [simp del]

text \<open>
  \<open>ExpandingDecode\<close> is the method \<open>Decode\<close> of \<open>ExpandingDecoder\<close>: the sticky error, if
  set, and the loop otherwise.
\<close>

definition ExpandingDecode ::
  "nat \<Rightarrow> ExpandingDecoder \<Rightarrow> (Expanded result \<times> ExpandingDecoder) option" where
  "ExpandingDecode fuel d =
     (case err d of
        Some e \<Rightarrow> Some (Err e, d)
      | None \<Rightarrow> ExpandingDecode_loop fuel d)"


section \<open>Runs\<close>

text \<open>
  The results of \<open>k\<close> successive calls of \<open>Decode\<close> on one decoder, and the expressions
  among them.
\<close>

fun Decode_calls :: "nat \<Rightarrow> Decoder \<Rightarrow> (error + Expression) list" where
  "Decode_calls 0 d = []"
| "Decode_calls (Suc k) d = (case Decode d of (r, d') \<Rightarrow> r # Decode_calls k d')"

definition returned :: "(error + Expression) list \<Rightarrow> Expression list" where
  "returned rs = concat (map (\<lambda>r. case r of Inl e \<Rightarrow> [] | Inr x \<Rightarrow> [x]) rs)"


text \<open>
  The results of successive calls of the method \<open>Decode\<close> of \<open>ExpandingDecoder\<close>, one
  for each element of the list, which bounds the work of that call; the calls stop at
  a call that its bound cuts off (\<open>None\<close>).
\<close>

fun ExpandingDecode_calls ::
  "nat list \<Rightarrow> ExpandingDecoder \<Rightarrow> (Expanded result) option list \<times> ExpandingDecoder" where
  "ExpandingDecode_calls [] d = ([], d)"
| "ExpandingDecode_calls (f # fs) d =
     (case ExpandingDecode f d of
        None \<Rightarrow> ([None], d)
      | Some (r, d') \<Rightarrow>
          (case ExpandingDecode_calls fs d' of (rs, d'') \<Rightarrow> (Some r # rs, d'')))"

text \<open>
  The expressions that \<open>Decode\<close> returns on one decoder up to its first error, and that
  error.
\<close>

function Decode_all :: "Decoder \<Rightarrow> Expression list \<times> error" where
  "Decode_all d =
     (case Decode d of
        (Inl e, d') \<Rightarrow> ([], e)
      | (Inr x, d') \<Rightarrow> (case Decode_all d' of (xs, e) \<Rightarrow> (x # xs, e)))"
  by pat_completeness auto
termination
  apply (relation "measure (\<lambda>d. length (input d))")
   apply simp
  apply simp
  apply (erule Decode_consumes_sym)
  done

declare Decode_all.simps [simp del]

text \<open>
  The error with which the engine reports an error \<open>e\<close> of the tokenizer of the file
  \<open>f\<close>: a syntax error is wrapped with the file and the line, any other error is
  passed on.
\<close>

definition engineError :: "string \<Rightarrow> error \<Rightarrow> error" where
  "engineError f e =
     (case e of
        SyntaxError ln msg \<Rightarrow>
          ExpressionError (Expanded (zeroExpression\<lparr>Line := ln\<rparr>) f []) (ErrorText msg)
      | _ \<Rightarrow> e)"



text \<open>
  The engine with the root \<open>r\<close> that reads the single file \<open>fname\<close> with the decoder
  \<open>dc\<close>, with nothing defined, nothing pending and no template call active.
\<close>

definition reading :: "FS \<Rightarrow> string \<Rightarrow> string \<Rightarrow> Decoder \<Rightarrow> ExpandingDecoder" where
  "reading fs r fname dc =
     \<lparr>fsys = fs, defs = [], root = r,
      decoderStack = [\<lparr>dec = dc, fileName = fname\<rparr>], pending = [],
      callStack = \<lparr>frames = [], seen = {}\<rparr>, includeStack = [fname], err = None\<rparr>"



text \<open>
  The text of a body: the body without its final newline and without leading white
  space.
\<close>

definition bodyText :: "string \<Rightarrow> string" where
  "bodyText b = TrimLeftSpace (TrimSuffix b [NL])"

text \<open>
  The text of a body as \<open>String\<close> writes it: the body without its final newline, and
  without its leading white space unless it starts with a newline.
\<close>

definition tailText :: "string \<Rightarrow> string" where
  "tailText b =
     (let tail = TrimSuffix b [NL]
      in if HasPrefix tail [NL] then tail else TrimLeftSpace tail)"

text \<open>
  Every newline of the text is followed by a tab: every line after the first is a
  continuation line for the tokenizer. And the text without these tabs.
\<close>

fun tabbed :: "string \<Rightarrow> bool" where
  "tabbed [] = True"
| "tabbed [c] = (c \<noteq> NL)"
| "tabbed (c # c' # s) = ((c \<noteq> NL \<or> c' = TAB) \<and> tabbed (c' # s))"

fun untab :: "string \<Rightarrow> string" where
  "untab [] = []"
| "untab [c] = [c]"
| "untab (c # c' # s) = (if c = NL \<and> c' = TAB then NL # untab s else c # untab (c' # s))"

section \<open>Properties of the arguments\<close>

lemma TrimSuffix_NL:
  "TrimSuffix s [NL] = (if s \<noteq> [] \<and> last s = NL then butlast s else s)"
proof (cases "s = []")
  case True
  then show ?thesis by (simp add: TrimSuffix_def HasSuffix_def)
next
  case False
  then have "drop (length s - Suc 0) s = [last s]"
    by (metis One_nat_def append_butlast_last_id append_eq_conv_conj length_butlast)
  with False show ?thesis
    by (auto simp: TrimSuffix_def HasSuffix_def butlast_conv_take Suc_le_eq)
qed

text \<open>
  C10: for every \<open>Args\<close> value \<open>a\<close> and every integer \<open>i\<close>, \<open>a.At(i)\<close> never panics: it
  returns the empty string when \<open>i\<close> is negative or at least \<open>len(a)\<close>, and otherwise
  \<open>a[i]\<close> with at most one trailing newline removed.
\<close>

theorem At_total:
  "At a i = Value (if i < 0 \<or> int (length a) \<le> i then []
                   else (let s = a ! nat i in if s \<noteq> [] \<and> last s = NL then butlast s else s))"
  by (simp add: At_def index_def TrimSuffix_NL Let_def)

theorem At_total_witness:
  "At [''a'' @ [NL], ''b'', [NL, NL]] 0 = Value ''a'' \<and> At [''a'' @ [NL], ''b'', [NL, NL]] 1 = Value ''b''
   \<and> At [''a'' @ [NL], ''b'', [NL, NL]] 2 = Value [NL] \<and> At [''a'' @ [NL], ''b'', [NL, NL]] 3 = Value []
   \<and> At [''a'' @ [NL], ''b'', [NL, NL]] (- 1) = Value []"
  using At_total [of "[''a'' @ [NL], ''b'', [NL, NL]]" 0]
    At_total [of "[''a'' @ [NL], ''b'', [NL, NL]]" 1]
    At_total [of "[''a'' @ [NL], ''b'', [NL, NL]]" 2]
    At_total [of "[''a'' @ [NL], ''b'', [NL, NL]]" 3]
    At_total [of "[''a'' @ [NL], ''b'', [NL, NL]]" "- 1"]
  by simp


section \<open>Properties of the tokenizer\<close>

lemma readContinuation_line:
  "readContinuation d b = (b', d') \<Longrightarrow> line d \<le> line d'"
proof (induction d b arbitrary: b' d' rule: readContinuation.induct)
  case (1 d body)
  obtain c e where pk: "peek d = (c, e)" by (cases "peek d")
  obtain l e' d1 where rl: "readLine d = ((l, e'), d1)"
    by (metis surj_pair)
  have le1: "line d1 = line d + 1" using rl by (rule readLine_line)
  show ?case
  proof (cases "c \<noteq> TAB")
    case True
    with pk "1.prems" show ?thesis by (simp add: readContinuation.simps [of d])
  next
    case False
    note tab = this
    show ?thesis
    proof (cases e')
      case True
      with tab pk rl "1.prems" le1 show ?thesis
        by (auto simp: readContinuation.simps [of d])
    next
      case False
      with tab pk rl "1.prems"
      have rc: "readContinuation d1 (body @ drop 1 l) = (b', d')"
        by (simp add: readContinuation.simps [of d])
      have "line d1 \<le> line d'"
        using "1.IH" [OF pk [symmetric] _ rl [symmetric] refl refl _ rc] tab False by simp
      with le1 show ?thesis by simp
    qed
  qed
qed

lemma makeExpr_Line [simp]: "Line (makeExpr ln c b) = ln"
  by (simp add: makeExpr_def split: prod.splits)

lemma Decode_loop_line:
  "Decode_loop d c = (r, d') \<Longrightarrow>
     line d < line d' \<and>
     (\<forall>e. r = Inr e \<longrightarrow> Line e \<le> line d' \<and> (if c = [] then line d < Line e else line d \<le> Line e))"
proof (induction d c arbitrary: r d' rule: Decode_loop.induct)
  case (1 d comments)
  obtain l eof d1 where rl: "readLine d = ((l, eof), d1)"
    by (metis surj_pair)
  have l1: "line d1 = line d + 1" using rl by (rule readLine_line)
  show ?case
  proof (cases l)
    case Nil
    with rl "1.prems" l1 show ?thesis
      by (auto simp: Decode_loop.simps [of d] Let_def split: if_splits)
  next
    case (Cons b bs)
    consider (nl) "b = NL" | (hash) "b \<noteq> NL" "b = HASH"
      | (ws) "b \<noteq> NL" "b \<noteq> HASH" "b = SP \<or> b = TAB"
      | (cmd) "b \<noteq> NL" "b \<noteq> HASH" "\<not> (b = SP \<or> b = TAB)"
      by blast
    then show ?thesis
    proof cases
      case nl
      with rl Cons "1.prems" l1 show ?thesis
        by (auto simp: Decode_loop.simps [of d])
    next
      case hash
      with rl Cons "1.prems"
      have "Decode_loop d1 (comments @ l) = (r, d')"
        by (simp add: Decode_loop.simps [of d])
      from "1.IH" [OF rl [symmetric] refl Cons hash(1) hash(2) this] Cons l1
      show ?thesis by auto
    next
      case ws
      with rl Cons "1.prems" l1 show ?thesis
        by (auto simp: Decode_loop.simps [of d])
    next
      case cmd
      obtain body d2 where rc: "readContinuation d1 l = (body, d2)"
        by (metis surj_pair)
      then have "line d1 \<le> line d2" by (rule readContinuation_line)
      moreover from cmd rl Cons "1.prems" rc
      have "d' = d2" "r = Inr (makeExpr (line d1) comments body)"
        by (auto simp: Decode_loop.simps [of d] Let_def)
      ultimately show ?thesis using l1 by simp
    qed
  qed
qed

lemma Decode_line:
  "Decode d = (r, d') \<Longrightarrow> line d < line d' \<and> (\<forall>e. r = Inr e \<longrightarrow> line d < Line e \<and> Line e \<le> line d')"
  unfolding Decode_def by (drule Decode_loop_line) simp

lemma Decode_calls_lines:
  "list_all (\<lambda>e. line d < Line e) (returned (Decode_calls k d)) \<and>
   sorted_wrt (<) (map Line (returned (Decode_calls k d)))"
proof (induction k arbitrary: d)
  case 0
  then show ?case by (simp add: returned_def)
next
  case (Suc k)
  obtain r d' where dd: "Decode d = (r, d')" by (cases "Decode d")
  note dl = Decode_line [OF dd]
  have ih: "list_all (\<lambda>e. line d' < Line e) (returned (Decode_calls k d'))"
    "sorted_wrt (<) (map Line (returned (Decode_calls k d')))"
    using Suc.IH [of d'] by simp_all
  have mono: "list_all (\<lambda>e. line d < Line e) (returned (Decode_calls k d'))"
    using ih(1) dl by (auto simp: list_all_iff)
  show ?case
  proof (cases r)
    case (Inl e)
    with dd mono ih(2) show ?thesis by (simp add: returned_def)
  next
    case (Inr x)
    with dl have x: "line d < Line x" "Line x \<le> line d'" by auto
    have "\<forall>y \<in> set (returned (Decode_calls k d')). Line x < Line y"
      using ih(1) x(2) by (auto simp: list_all_iff)
    with Inr dd mono ih(2) x(1) show ?thesis
      by (auto simp: returned_def)
  qed
qed

text \<open>
  C7: for every input and every number \<open>k\<close> of calls, every expression returned by the
  calls of \<open>Decode\<close> on one decoder has a strictly positive line number, and no two of
  them share a line number.
\<close>

theorem Decode_lines_positive_unique:
  "list_all (\<lambda>e. 0 < Line e) (returned (Decode_calls k (NewDecoder s))) \<and>
   distinct (map Line (returned (Decode_calls k (NewDecoder s))))"
proof -
  have "list_all (\<lambda>e. line (NewDecoder s) < Line e) (returned (Decode_calls k (NewDecoder s)))"
    and st: "sorted_wrt (<) (map Line (returned (Decode_calls k (NewDecoder s))))"
    using Decode_calls_lines [of "NewDecoder s" k] by simp_all
  then have "list_all (\<lambda>e. 0 < Line e) (returned (Decode_calls k (NewDecoder s)))"
    by (simp add: NewDecoder_def)
  moreover have "distinct (map Line (returned (Decode_calls k (NewDecoder s))))"
    using st by (simp add: strict_sorted_iff)
  ultimately show ?thesis by simp
qed


theorem Decode_lines_positive_unique_witness:
  "list_all (\<lambda>e. 0 < Line e)
     (returned (Decode_calls 6 (NewDecoder (''a'' @ [NL] @ '' x'' @ [NL, NL] @ ''#c'' @ [NL]
        @ ''b'' @ [NL, TAB] @ ''c'' @ [NL] @ ''#d'')))) \<and>
   distinct (map Line
     (returned (Decode_calls 6 (NewDecoder (''a'' @ [NL] @ '' x'' @ [NL, NL] @ ''#c'' @ [NL]
        @ ''b'' @ [NL, TAB] @ ''c'' @ [NL] @ ''#d''))))) \<and>
   map Line
     (returned (Decode_calls 6 (NewDecoder (''a'' @ [NL] @ '' x'' @ [NL, NL] @ ''#c'' @ [NL]
        @ ''b'' @ [NL, TAB] @ ''c'' @ [NL] @ ''#d'')))) = [1, 3, 5, 7]"
proof -
  have "map Line
     (returned (Decode_calls 6 (NewDecoder (''a'' @ [NL] @ '' x'' @ [NL, NL] @ ''#c'' @ [NL]
        @ ''b'' @ [NL, TAB] @ ''c'' @ [NL] @ ''#d'')))) = [1, 3, 5, 7]"
    by code_simp
  then show ?thesis
    using Decode_lines_positive_unique [of 6 "''a'' @ [NL] @ '' x'' @ [NL, NL] @ ''#c'' @ [NL]
        @ ''b'' @ [NL, TAB] @ ''c'' @ [NL] @ ''#d''"]
    by blast
qed


subsection \<open>Reconstructing the source text\<close>

lemma spaceWidth_0_iff: "spaceWidth s = 0 \<longleftrightarrow> (\<forall>q \<in> set spaceSeqs. \<not> HasPrefix s q)"
proof (cases "find (HasPrefix s) spaceSeqs")
  case None
  then have "\<forall>q \<in> set spaceSeqs. \<not> HasPrefix s q" by (simp add: find_None_iff)
  moreover have "spaceWidth s = 0" using None by (simp add: spaceWidth_def)
  ultimately show ?thesis by blast
next
  case (Some q)
  then have "q \<in> set spaceSeqs" "HasPrefix s q"
    by (auto simp: find_Some_iff)
  moreover from this have "q \<noteq> []" by (auto dest: spaceSeqs_nonempty)
  ultimately show ?thesis using Some by (auto simp: spaceWidth_def)
qed

lemma spaceWidthR_0_iff: "spaceWidthR s = 0 \<longleftrightarrow> (\<forall>q \<in> set spaceSeqs. \<not> HasSuffix s q)"
proof (cases "find (HasSuffix s) spaceSeqs")
  case None
  then have "\<forall>q \<in> set spaceSeqs. \<not> HasSuffix s q" by (simp add: find_None_iff)
  moreover have "spaceWidthR s = 0" using None by (simp add: spaceWidthR_def)
  ultimately show ?thesis by blast
next
  case (Some q)
  then have "q \<in> set spaceSeqs" "HasSuffix s q"
    by (auto simp: find_Some_iff)
  moreover from this have "q \<noteq> []" by (auto dest: spaceSeqs_nonempty)
  ultimately show ?thesis using Some by (auto simp: spaceWidthR_def)
qed

lemma TrimLeftSpace_done: "spaceWidth (TrimLeftSpace s) = 0"
  by (induction s rule: TrimLeftSpace.induct) (simp add: TrimLeftSpace.simps)

lemma TrimRightSpace_done: "spaceWidthR (TrimRightSpace s) = 0"
  by (induction s rule: TrimRightSpace.induct) (simp add: TrimRightSpace.simps)

lemma TrimLeftSpace_id: "spaceWidth s = 0 \<Longrightarrow> TrimLeftSpace s = s"
  by (simp add: TrimLeftSpace.simps)

lemma TrimRightSpace_id: "spaceWidthR s = 0 \<Longrightarrow> TrimRightSpace s = s"
  by (simp add: TrimRightSpace.simps)

lemma TrimLeftSpace_drop: "\<exists>k. TrimLeftSpace s = drop k s"
proof (induction s rule: TrimLeftSpace.induct)
  case (1 s)
  show ?case
  proof (cases "spaceWidth s = 0")
    case True
    then have "TrimLeftSpace s = drop 0 s" by (simp add: TrimLeftSpace.simps)
    then show ?thesis by blast
  next
    case False
    with 1 obtain k where "TrimLeftSpace (drop (spaceWidth s) s) = drop k (drop (spaceWidth s) s)"
      by blast
    with False have "TrimLeftSpace s = drop (k + spaceWidth s) s"
      by (simp add: TrimLeftSpace.simps [of s])
    then show ?thesis by blast
  qed
qed

lemma TrimRightSpace_take: "\<exists>k. TrimRightSpace s = take k s"
proof (induction s rule: TrimRightSpace.induct)
  case (1 s)
  show ?case
  proof (cases "spaceWidthR s = 0")
    case True
    then have "TrimRightSpace s = take (length s) s" by (simp add: TrimRightSpace.simps)
    then show ?thesis by blast
  next
    case False
    with 1 obtain k where
      "TrimRightSpace (take (length s - spaceWidthR s) s) = take k (take (length s - spaceWidthR s) s)"
      by blast
    with False have "TrimRightSpace s = take (min k (length s - spaceWidthR s)) s"
      by (simp add: TrimRightSpace.simps [of s])
    then show ?thesis by blast
  qed
qed

lemma HasPrefix_take: "HasPrefix (take k s) q \<Longrightarrow> HasPrefix s q"
proof -
  assume a: "HasPrefix (take k s) q"
  then have eq: "take (length q) (take k s) = q" by (simp add: HasPrefix_def)
  then have "length q \<le> k"
    by (metis length_take min.cobounded1 min.cobounded2 le_trans)
  with eq show ?thesis by (simp add: HasPrefix_def min_def)
qed

lemma spaceWidth_take: "spaceWidth s = 0 \<Longrightarrow> spaceWidth (take k s) = 0"
  by (auto simp: spaceWidth_0_iff dest: HasPrefix_take)

lemma TrimSpace_done: "spaceWidth (TrimSpace s) = 0 \<and> spaceWidthR (TrimSpace s) = 0"
proof -
  obtain k where "TrimRightSpace (TrimLeftSpace s) = take k (TrimLeftSpace s)"
    using TrimRightSpace_take by blast
  then have "spaceWidth (TrimSpace s) = 0"
    by (simp add: TrimSpace_def spaceWidth_take TrimLeftSpace_done)
  then show ?thesis by (simp add: TrimSpace_def TrimRightSpace_done)
qed

lemma TrimSpace_idem: "TrimSpace (TrimSpace s) = TrimSpace s"
proof -
  have "TrimLeftSpace (TrimSpace s) = TrimSpace s"
    using TrimSpace_done by (simp add: TrimLeftSpace_id)
  then show ?thesis
    using TrimSpace_done by (simp add: TrimSpace_def [of "TrimSpace s"] TrimRightSpace_id)
qed

lemma TrimLeftSpace_set: "set (TrimLeftSpace s) \<subseteq> set s"
  using TrimLeftSpace_drop [of s] by (auto dest: in_set_dropD)

lemma TrimRightSpace_set: "set (TrimRightSpace s) \<subseteq> set s"
  using TrimRightSpace_take [of s] by (auto dest: in_set_takeD)

lemma TrimSpace_set: "set (TrimSpace s) \<subseteq> set s"
  unfolding TrimSpace_def using TrimLeftSpace_set TrimRightSpace_set by blast

lemma spaceWidth_0_hd:
  assumes "spaceWidth s = 0" and "s \<noteq> []"
  shows "hd s \<noteq> SP \<and> hd s \<noteq> TAB \<and> hd s \<noteq> NL"
proof -
  from assms(2) obtain c cs where s: "s = c # cs" by (cases s) auto
  have "[SP] \<in> set spaceSeqs" "[TAB] \<in> set spaceSeqs" "[NL] \<in> set spaceSeqs"
    by (simp_all add: spaceSeqs_def)
  with assms(1) have "\<not> HasPrefix s [SP]" "\<not> HasPrefix s [TAB]" "\<not> HasPrefix s [NL]"
    by (auto simp: spaceWidth_0_iff)
  with s show ?thesis by (simp add: HasPrefix_def)
qed

lemma TrimSpace_Nil [simp]: "TrimSpace [] = []"
  by (simp add: TrimSpace_def TrimLeftSpace.simps TrimRightSpace.simps)

lemma IndexAny_append:
  "set xs \<inter> set cs = {} \<Longrightarrow> c \<in> set cs \<Longrightarrow> IndexAny (xs @ c # ys) cs = Some (length xs)"
  by (induction xs) auto

lemma parseBody_name:
  "\<exists>x. fst (parseBody b) = TrimSpace x \<and> set x \<inter> {SP, TAB, NL} = {}"
proof (cases "IndexAny b [SP, TAB, NL]")
  case None
  then have "set b \<inter> {SP, TAB, NL} = {}" by (simp add: IndexAny_None)
  with None show ?thesis by (auto simp: parseBody_def)
next
  case (Some i)
  then have "set (take i b) \<inter> {SP, TAB, NL} = {}"
    by (auto dest!: IndexAny_Some)
  with Some show ?thesis by (auto simp: parseBody_def)
qed

lemma Decode_loop_makeExpr:
  "Decode_loop d c = (Inr e, d') \<Longrightarrow> \<exists>ln cm b. e = makeExpr ln cm b"
proof (induction d c arbitrary: e d' rule: Decode_loop.induct)
  case (1 d comments)
  obtain l eof d1 where rl: "readLine d = ((l, eof), d1)"
    by (metis surj_pair)
  show ?case
  proof (cases l)
    case Nil
    with rl "1.prems" show ?thesis
      by (auto simp: Decode_loop.simps [of d] Let_def split: if_splits)
  next
    case (Cons b bs)
    consider (nl) "b = NL" | (hash) "b \<noteq> NL" "b = HASH"
      | (ws) "b \<noteq> NL" "b \<noteq> HASH" "b = SP \<or> b = TAB"
      | (cmd) "b \<noteq> NL" "b \<noteq> HASH" "\<not> (b = SP \<or> b = TAB)"
      by blast
    then show ?thesis
    proof cases
      case nl
      with rl Cons "1.prems" show ?thesis
        by (auto simp: Decode_loop.simps [of d])
    next
      case hash
      with rl Cons "1.prems"
      have "Decode_loop d1 (comments @ l) = (Inr e, d')"
        by (simp add: Decode_loop.simps [of d])
      from "1.IH" [OF rl [symmetric] refl Cons hash(1) hash(2) this]
      show ?thesis .
    next
      case ws
      with rl Cons "1.prems" show ?thesis
        by (auto simp: Decode_loop.simps [of d])
    next
      case cmd
      with rl Cons "1.prems" show ?thesis
        by (auto simp: Decode_loop.simps [of d] Let_def split: prod.splits)
    qed
  qed
qed

lemma Decode_name:
  assumes "Decode d = (Inr e, d')"
  shows "TrimSpace (Name e) = Name e \<and> set (Name e) \<inter> {SP, TAB, NL} = {}"
proof -
  from assms obtain ln cm b where "e = makeExpr ln cm b"
    unfolding Decode_def by (blast dest: Decode_loop_makeExpr)
  then have nm: "Name e = fst (parseBody b)"
    by (simp add: makeExpr_def split: prod.splits)
  obtain x where x: "fst (parseBody b) = TrimSpace x" "set x \<inter> {SP, TAB, NL} = {}"
    using parseBody_name by blast
  have "set (TrimSpace x) \<subseteq> set x" by (rule TrimSpace_set)
  with x nm show ?thesis by (auto simp: TrimSpace_idem)
qed

lemma untab_Cons: "c \<noteq> NL \<Longrightarrow> untab (c # s) = c # untab s"
  by (cases s) simp_all

lemma tabbed_lines:
  "tabbed x \<Longrightarrow>
     \<exists>f ls. NL \<notin> set f \<and> (\<forall>l \<in> set ls. NL \<notin> set l)
       \<and> x = f @ concat (map (\<lambda>l. NL # TAB # l) ls)
       \<and> untab x = f @ concat (map (\<lambda>l. NL # l) ls)"
proof (induction x rule: tabbed.induct)
  case 1
  have "NL \<notin> set [] \<and> (\<forall>l \<in> set ([] :: string list). NL \<notin> set l)
       \<and> [] = [] @ concat (map (\<lambda>l. NL # TAB # l) [])
       \<and> untab [] = [] @ concat (map (\<lambda>l. NL # l) [])" by simp
  then show ?case by blast
next
  case (2 c)
  then have "NL \<notin> set [c] \<and> (\<forall>l \<in> set ([] :: string list). NL \<notin> set l)
       \<and> [c] = [c] @ concat (map (\<lambda>l. NL # TAB # l) [])
       \<and> untab [c] = [c] @ concat (map (\<lambda>l. NL # l) [])" by simp
  then show ?case by blast
next
  case (3 c c' s)
  from "3.prems" have t: "tabbed (c' # s)" and c: "c \<noteq> NL \<or> c' = TAB" by simp_all
  from "3.IH" [OF t] obtain f ls where
    f: "NL \<notin> set f" and ls: "\<forall>l \<in> set ls. NL \<notin> set l"
    and x: "c' # s = f @ concat (map (\<lambda>l. NL # TAB # l) ls)"
    and u: "untab (c' # s) = f @ concat (map (\<lambda>l. NL # l) ls)"
    by blast
  show ?case
  proof (cases "c = NL")
    case False
    then have "untab (c # c' # s) = c # untab (c' # s)" by simp
    with False f ls x u have "NL \<notin> set (c # f) \<and> (\<forall>l \<in> set ls. NL \<notin> set l)
       \<and> c # c' # s = (c # f) @ concat (map (\<lambda>l. NL # TAB # l) ls)
       \<and> untab (c # c' # s) = (c # f) @ concat (map (\<lambda>l. NL # l) ls)" by simp
    then show ?thesis by blast
  next
    case True
    with c have c': "c' = TAB" by simp
    have "f \<noteq> []"
    proof
      assume "f = []"
      with x c' show False by (cases ls) simp_all
    qed
    with x c' obtain g where g: "f = TAB # g" "s = g @ concat (map (\<lambda>l. NL # TAB # l) ls)"
      by (cases f) auto
    have "untab (TAB # s) = TAB # untab s" by (rule untab_Cons) simp
    with u c' g(1) have us: "untab s = g @ concat (map (\<lambda>l. NL # l) ls)" by simp
    from f g(1) have gn: "NL \<notin> set g" by simp
    from True c' g(2) us gn ls
    have "NL \<notin> set [] \<and> (\<forall>l \<in> set (g # ls). NL \<notin> set l)
       \<and> c # c' # s = [] @ concat (map (\<lambda>l. NL # TAB # l) (g # ls))
       \<and> untab (c # c' # s) = [] @ concat (map (\<lambda>l. NL # l) (g # ls))" by simp
    then show ?thesis by blast
  qed
qed

lemma concat_shift:
  "concat (map (\<lambda>l. NL # g l) ls) @ [NL] = NL # concat (map (\<lambda>l. g l @ [NL]) ls)"
  by (induction ls) simp_all

lemma first_untabbed:
  "\<not> tabbed x \<Longrightarrow> \<exists>a c b. x @ [NL] = a @ NL # c # b \<and> c \<noteq> TAB \<and> tabbed a"
proof (induction x rule: tabbed.induct)
  case 1
  then show ?case by simp
next
  case (2 c)
  then have "[c] @ [NL] = [] @ NL # NL # [] \<and> NL \<noteq> TAB \<and> tabbed []" by simp
  then show ?case by blast
next
  case (3 c c' s)
  show ?case
  proof (cases "c = NL \<and> c' \<noteq> TAB")
    case True
    then have "(c # c' # s) @ [NL] = [] @ NL # c' # (s @ [NL]) \<and> c' \<noteq> TAB \<and> tabbed []"
      by simp
    then show ?thesis by blast
  next
    case False
    with "3.prems" have nt: "\<not> tabbed (c' # s)" by auto
    from "3.IH" [OF nt] obtain a k b where
      x: "(c' # s) @ [NL] = a @ NL # k # b" and k: "k \<noteq> TAB" and a: "tabbed a"
      by blast
    have "tabbed (c # a)"
    proof (cases a)
      case Nil
      with x have "c' = NL" by simp
      with False have "c \<noteq> NL" by auto
      with Nil show ?thesis by simp
    next
      case (Cons a1 a2)
      with x have "a1 = c'" by simp
      with Cons a False show ?thesis by auto
    qed
    with x k have "(c # c' # s) @ [NL] = (c # a) @ NL # k # b \<and> k \<noteq> TAB \<and> tabbed (c # a)"
      by simp
    then show ?thesis by blast
  qed
qed

lemma readContinuation_lines:
  "\<forall>l \<in> set ls. NL \<notin> set l \<Longrightarrow> rest = [] \<or> hd rest \<noteq> TAB \<Longrightarrow>
     readContinuation \<lparr>input = concat (map (\<lambda>l. TAB # l @ [NL]) ls) @ rest, line = k\<rparr> acc
       = (acc @ concat (map (\<lambda>l. l @ [NL]) ls), \<lparr>input = rest, line = k + int (length ls)\<rparr>)"
proof (induction ls arbitrary: k acc)
  case Nil
  define d where "d = \<lparr>input = rest, line = k\<rparr>"
  from Nil.prems(2) obtain b eof where "peek d = (b, eof)" "b \<noteq> TAB"
    by (cases rest) (auto simp: peek_def d_def)
  then have "readContinuation d acc = (acc, d)"
    by (simp add: readContinuation.simps [of d])
  then show ?case by (simp add: d_def)
next
  case (Cons l ls)
  let ?rest = "concat (map (\<lambda>l. TAB # l @ [NL]) ls) @ rest"
  define d where "d = \<lparr>input = TAB # l @ [NL] @ ?rest, line = k\<rparr>"
  from Cons.prems have l: "NL \<notin> set l" and ls: "\<forall>l \<in> set ls. NL \<notin> set l" by simp_all
  from l have "set (TAB # l) \<inter> set [NL] = {}" by simp
  then have "IndexAny ((TAB # l) @ NL # ?rest) [NL] = Some (length (TAB # l))"
    by (rule IndexAny_append) simp
  then have ia: "IndexAny (TAB # l @ NL # ?rest) [NL] = Some (Suc (length l))" by simp
  have rl: "readLine d = ((TAB # l @ [NL], False), \<lparr>input = ?rest, line = k + 1\<rparr>)"
    using ia by (simp add: readLine_def ReadString_def d_def)
  have pk: "peek d = (TAB, False)" by (simp add: peek_def d_def)
  have "readContinuation d acc
          = readContinuation \<lparr>input = ?rest, line = k + 1\<rparr> (acc @ l @ [NL])"
    by (simp add: readContinuation.simps [of d] pk rl)
  also have "\<dots> = ((acc @ l @ [NL]) @ concat (map (\<lambda>l. l @ [NL]) ls),
                    \<lparr>input = rest, line = (k + 1) + int (length ls)\<rparr>)"
    using ls Cons.prems(2) by (rule Cons.IH)
  finally show ?case by (simp add: add.assoc d_def)
qed

lemma Decode_text:
  assumes nm: "TrimSpace n = n" "set n \<inter> {SP, TAB, NL} = {}"
    and hd: "case n of [] \<Rightarrow> sep = [] \<and> f = [] \<and> ls = [] | c # _ \<Rightarrow> c \<noteq> HASH"
    and sep: "sep = [] \<and> f = [] \<or> sep = [SP] \<and> f \<noteq> [] \<and> hd f \<noteq> SP \<and> hd f \<noteq> TAB"
    and f: "NL \<notin> set f" and ls: "\<forall>l \<in> set ls. NL \<notin> set l"
    and rest: "rest = [] \<or> hd rest \<noteq> TAB"
  shows "Decode (NewDecoder (n @ sep @ f @ [NL] @ concat (map (\<lambda>l. TAB # l @ [NL]) ls) @ rest)) =
           (Inr \<lparr>Line = 1, Comment = [], Name = n,
                 Body = f @ [NL] @ concat (map (\<lambda>l. l @ [NL]) ls)\<rparr>,
            \<lparr>input = rest, line = 1 + int (length ls)\<rparr>)"
proof -
  define mid where "mid = sep @ f"
  define l where "l = n @ mid @ [NL]"
  define conts where "conts = concat (map (\<lambda>l. TAB # l @ [NL]) ls) @ rest"
  define body where "body = concat (map (\<lambda>l. l @ [NL]) ls)"
  have midn: "NL \<notin> set mid" using sep f by (auto simp: mid_def)
  have "set (n @ mid) \<inter> set [NL] = {}" using nm(2) midn by auto
  then have "IndexAny ((n @ mid) @ NL # conts) [NL] = Some (length (n @ mid))"
    by (rule IndexAny_append) simp
  then have ia: "IndexAny (l @ conts) [NL] = Some (length (n @ mid))" by (simp add: l_def)
  have "take (Suc (length n + length mid)) (l @ conts) = l"
    "drop (Suc (length n + length mid)) (l @ conts) = conts"
    by (simp_all add: l_def)
  then have rl: "readLine (NewDecoder (l @ conts)) = ((l, False), \<lparr>input = conts, line = 1\<rparr>)"
    by (simp add: readLine_def ReadString_def ia NewDecoder_def)
  have tl: "TrimLeft (mid @ [NL] @ body) [SP, TAB] = f @ [NL] @ body"
    using sep by (cases f) (auto simp: TrimLeft_def mid_def)
  obtain m ms where mm: "mid @ [NL] @ body = m # ms" "m = SP \<or> m = NL"
    using sep by (auto simp: mid_def)
  have "set n \<inter> set [SP, TAB, NL] = {}" using nm(2) by auto
  moreover have "m \<in> set [SP, TAB, NL]" using mm(2) by auto
  ultimately have "IndexAny (n @ m # ms) [SP, TAB, NL] = Some (length n)"
    by (rule IndexAny_append)
  then have ib: "IndexAny (l @ body) [SP, TAB, NL] = Some (length n)"
    by (simp add: l_def mm(1) [symmetric])
  have td: "take (length n) (l @ body) = n" "drop (length n) (l @ body) = mid @ [NL] @ body"
    by (simp_all add: l_def)
  have pb: "parseBody (l @ body) = (n, f @ [NL] @ body)"
    by (simp only: parseBody_def ib option.case td nm(1) tl)
  have me: "makeExpr 1 [] (l @ body) = \<lparr>Line = 1, Comment = [], Name = n, Body = f @ [NL] @ body\<rparr>"
    by (simp add: makeExpr_def pb)
  have "Decode (NewDecoder (l @ conts)) =
           (Inr \<lparr>Line = 1, Comment = [], Name = n, Body = f @ [NL] @ body\<rparr>,
            \<lparr>input = rest, line = 1 + int (length ls)\<rparr>)"
  proof (cases n)
    case Nil
    with hd have e: "sep = []" "f = []" "ls = []" by simp_all
    with Nil have l: "l = [NL]" "conts = rest" "body = []"
      by (simp_all add: l_def mid_def conts_def body_def)
    from rl me e(3) show ?thesis
      unfolding l by (simp add: Decode_def Decode_loop.simps [of "NewDecoder (NL # rest)"])
  next
    case (Cons c cs)
    with hd nm(2) have c: "c \<noteq> HASH" "c \<noteq> NL" "c \<noteq> SP" "c \<noteq> TAB" by auto
    from Cons obtain r where l: "l = c # r" by (simp add: l_def)
    have rc: "readContinuation \<lparr>input = conts, line = 1\<rparr> l
                = (l @ body, \<lparr>input = rest, line = 1 + int (length ls)\<rparr>)"
      unfolding conts_def body_def using ls rest by (rule readContinuation_lines)
    have "Decode_loop (NewDecoder (l @ conts)) []
            = (Inr (makeExpr 1 [] (l @ body)), \<lparr>input = rest, line = 1 + int (length ls)\<rparr>)"
      using c rl rc unfolding l
      by (simp add: Decode_loop.simps [of "NewDecoder (c # r @ conts)"] Let_def)
    with me show ?thesis by (simp add: Decode_def)
  qed
  then show ?thesis by (simp add: l_def mid_def conts_def body_def)
qed

text \<open>
  \<open>String\<close> writes the name, a space unless the text of the body is empty or starts with
  a newline, the text of the body and a newline.
\<close>

lemma String_tailText:
  "String (Expanded e f st) =
     Name e @ (if tailText (Body e) = [] \<or> hd (tailText (Body e)) = NL then [] else [SP])
       @ tailText (Body e) @ [NL]
   \<and> (tailText (Body e) \<noteq> [] \<and> hd (tailText (Body e)) \<noteq> NL \<longrightarrow>
        hd (tailText (Body e)) \<noteq> SP \<and> hd (tailText (Body e)) \<noteq> TAB)"
proof (cases "HasPrefix (TrimSuffix (Body e) [NL]) [NL]")
  case True
  then have x: "tailText (Body e) = TrimSuffix (Body e) [NL]" by (simp add: tailText_def)
  from True have "hd (TrimSuffix (Body e) [NL]) = NL \<and> TrimSuffix (Body e) [NL] \<noteq> []"
    by (cases "TrimSuffix (Body e) [NL]") (simp_all add: HasPrefix_def)
  with True show ?thesis unfolding x by (simp add: String_def Let_def)
next
  case False
  then have x: "tailText (Body e) = TrimLeftSpace (TrimSuffix (Body e) [NL])"
    by (simp add: tailText_def)
  have "spaceWidth (TrimLeftSpace (TrimSuffix (Body e) [NL])) = 0" by (rule TrimLeftSpace_done)
  then have "TrimLeftSpace (TrimSuffix (Body e) [NL]) \<noteq> [] \<Longrightarrow>
      hd (TrimLeftSpace (TrimSuffix (Body e) [NL])) \<noteq> SP
      \<and> hd (TrimLeftSpace (TrimSuffix (Body e) [NL])) \<noteq> TAB
      \<and> hd (TrimLeftSpace (TrimSuffix (Body e) [NL])) \<noteq> NL"
    by (rule spaceWidth_0_hd)
  with False show ?thesis unfolding x by (auto simp: String_def Let_def)
qed

text \<open>
  C5, amended: let \<open>e\<close> be an expression that \<open>Decode\<close> returns, whose name does not
  start with \<open>#\<close> and is empty only if the text of its body is empty. If every newline in
  the text of the body is followed by a tab (every continuation line of \<open>e\<close> starts with
  a tab), the tokenizer reads the text that \<open>String\<close> makes of \<open>e\<close> as one expression, to
  the end of the text: it has the name of \<open>e\<close>, and its body is the text of the body of
  \<open>e\<close> without these tabs, and a newline. If not, the tokenizer ends the expression
  before the end of the text.
\<close>

theorem String_reparses:
  assumes "Decode dc = (Inr e, dc')"
    and "case Name e of [] \<Rightarrow> tailText (Body e) = [] | c # _ \<Rightarrow> c \<noteq> HASH"
  shows "if tabbed (tailText (Body e))
         then fst (Decode (NewDecoder (String (Expanded e f st)))) =
                Inr \<lparr>Line = 1, Comment = [], Name = Name e,
                      Body = untab (tailText (Body e)) @ [NL]\<rparr>
              \<and> input (snd (Decode (NewDecoder (String (Expanded e f st))))) = []
         else input (snd (Decode (NewDecoder (String (Expanded e f st))))) \<noteq> []"
proof -
  let ?x = "tailText (Body e)"
  define sep where "sep = (if ?x = [] \<or> hd ?x = NL then [] else [SP])"
  have nm: "TrimSpace (Name e) = Name e" "set (Name e) \<inter> {SP, TAB, NL} = {}"
    using Decode_name [OF assms(1)] by simp_all
  have str: "String (Expanded e f st) = Name e @ sep @ ?x @ [NL]"
    and h: "?x \<noteq> [] \<and> hd ?x \<noteq> NL \<longrightarrow> hd ?x \<noteq> SP \<and> hd ?x \<noteq> TAB"
    using String_tailText [of e f st] by (simp_all add: sep_def)
  have main: "Decode (NewDecoder (String (Expanded e f st))) =
           (Inr \<lparr>Line = 1, Comment = [], Name = Name e,
                 Body = g @ [NL] @ concat (map (\<lambda>l. l @ [NL]) ls)\<rparr>,
            \<lparr>input = rest, line = 1 + int (length ls)\<rparr>)"
    if g: "NL \<notin> set g" and ls: "\<forall>l \<in> set ls. NL \<notin> set l"
      and x: "?x @ [NL] = g @ [NL] @ concat (map (\<lambda>l. TAB # l @ [NL]) ls) @ rest"
      and rest: "rest = [] \<or> hd rest \<noteq> TAB"
      and one: "Name e = [] \<longrightarrow> ls = []"
    for g ls rest
  proof -
    have gx: "g = [] \<longleftrightarrow> ?x = [] \<or> hd ?x = NL"
    proof (cases g)
      case Nil
      with x show ?thesis by (cases ?x) auto
    next
      case (Cons g1 g2)
      with x g have "?x \<noteq> [] \<and> hd ?x = g1 \<and> g1 \<noteq> NL" by (cases ?x) auto
      with Cons show ?thesis by simp
    qed
    have hg: "g \<noteq> [] \<Longrightarrow> hd g = hd ?x" using x g by (cases g; cases ?x) auto
    have sp: "sep = [] \<and> g = [] \<or> sep = [SP] \<and> g \<noteq> [] \<and> hd g \<noteq> SP \<and> hd g \<noteq> TAB"
      using gx h hg by (auto simp: sep_def)
    have hd: "case Name e of [] \<Rightarrow> sep = [] \<and> g = [] \<and> ls = [] | c # _ \<Rightarrow> c \<noteq> HASH"
      using assms(2) gx one by (auto simp: sep_def split: list.splits)
    have "Decode (NewDecoder (Name e @ sep @ g @ [NL]
              @ concat (map (\<lambda>l. TAB # l @ [NL]) ls) @ rest)) =
           (Inr \<lparr>Line = 1, Comment = [], Name = Name e,
                 Body = g @ [NL] @ concat (map (\<lambda>l. l @ [NL]) ls)\<rparr>,
            \<lparr>input = rest, line = 1 + int (length ls)\<rparr>)"
      using nm hd sp g ls rest by (rule Decode_text)
    then show ?thesis unfolding str using x by simp
  qed
  show ?thesis
  proof (cases "tabbed ?x")
    case True
    from tabbed_lines [OF True] obtain g ls where
      g: "NL \<notin> set g" and ls: "\<forall>l \<in> set ls. NL \<notin> set l"
      and x: "?x = g @ concat (map (\<lambda>l. NL # TAB # l) ls)"
      and u: "untab ?x = g @ concat (map (\<lambda>l. NL # l) ls)"
      by blast
    have x1: "?x @ [NL] = g @ [NL] @ concat (map (\<lambda>l. TAB # l @ [NL]) ls) @ []"
      unfolding x using concat_shift [of "\<lambda>l. TAB # l" ls] by simp
    have u1: "untab ?x @ [NL] = g @ [NL] @ concat (map (\<lambda>l. l @ [NL]) ls)"
      unfolding u using concat_shift [of "\<lambda>l. l" ls] by simp
    have one: "Name e = [] \<longrightarrow> ls = []" using assms(2) x by auto
    from main [OF g ls x1 _ one] True show ?thesis unfolding u1 by simp
  next
    case False
    from first_untabbed [OF False] obtain a c b where
      xa: "?x @ [NL] = a @ NL # c # b" and c: "c \<noteq> TAB" and a: "tabbed a"
      by blast
    from tabbed_lines [OF a] obtain g ls where
      g: "NL \<notin> set g" and ls: "\<forall>l \<in> set ls. NL \<notin> set l"
      and ax: "a = g @ concat (map (\<lambda>l. NL # TAB # l) ls)"
      by blast
    have "a @ [NL] = g @ [NL] @ concat (map (\<lambda>l. TAB # l @ [NL]) ls)"
      unfolding ax using concat_shift [of "\<lambda>l. TAB # l" ls] by simp
    then have x1: "?x @ [NL] = g @ [NL] @ concat (map (\<lambda>l. TAB # l @ [NL]) ls) @ c # b"
      using xa by simp
    have ne: "Name e \<noteq> []" using assms(2) False by (cases "Name e") auto
    have "Decode (NewDecoder (String (Expanded e f st))) =
           (Inr \<lparr>Line = 1, Comment = [], Name = Name e,
                 Body = g @ [NL] @ concat (map (\<lambda>l. l @ [NL]) ls)\<rparr>,
            \<lparr>input = c # b, line = 1 + int (length ls)\<rparr>)"
      using g ls x1 by (rule main) (use c ne in simp_all)
    with False show ?thesis by simp
  qed
qed

text \<open>
  C5, witness: the command \<open>cmd a\<close> with the continuation line tab, tab, \<open>b\<close> reads back
  as \<open>cmd\<close> with the body lines \<open>a\<close> and \<open>b\<close>; with the continuation line tab, \<open>b\<close>
  the text is not read to its end.
\<close>

theorem String_reparses_witness:
  "fst (Decode (NewDecoder (String (Expanded
       \<lparr>Line = 1, Comment = [], Name = ''cmd'', Body = ''a'' @ [NL, TAB] @ ''b'' @ [NL]\<rparr> ''f'' []))))
     = Inr \<lparr>Line = 1, Comment = [], Name = ''cmd'', Body = ''a'' @ [NL] @ ''b'' @ [NL]\<rparr>
   \<and> input (snd (Decode (NewDecoder (String (Expanded
       \<lparr>Line = 1, Comment = [], Name = ''cmd'', Body = ''a'' @ [NL, TAB] @ ''b'' @ [NL]\<rparr> ''f'' [])))))
     = []
   \<and> input (snd (Decode (NewDecoder (String (Expanded
       \<lparr>Line = 1, Comment = [], Name = ''cmd'', Body = ''a'' @ [NL] @ ''b'' @ [NL]\<rparr> ''f'' [])))))
     \<noteq> []"
proof -
  let ?e = "\<lparr>Line = 1, Comment = [], Name = ''cmd'', Body = ''a'' @ [NL, TAB] @ ''b'' @ [NL]\<rparr>"
  let ?e' = "\<lparr>Line = 1, Comment = [], Name = ''cmd'', Body = ''a'' @ [NL] @ ''b'' @ [NL]\<rparr>"
  have h1: "Decode (NewDecoder (''cmd a'' @ [NL, TAB, TAB] @ ''b'' @ [NL]))
              = (Inr ?e, \<lparr>input = [], line = 2\<rparr>)"
    by code_simp
  have h2: "case Name ?e of [] \<Rightarrow> tailText (Body ?e) = [] | c # _ \<Rightarrow> c \<noteq> HASH"
    by simp
  have t: "tabbed (tailText (Body ?e))"
    by code_simp
  have u: "untab (tailText (Body ?e)) @ [NL] = ''a'' @ [NL] @ ''b'' @ [NL]"
    by code_simp
  have h1': "Decode (NewDecoder (''cmd a'' @ [NL, TAB] @ ''b'' @ [NL]))
              = (Inr ?e', \<lparr>input = [], line = 2\<rparr>)"
    by code_simp
  have h2': "case Name ?e' of [] \<Rightarrow> tailText (Body ?e') = [] | c # _ \<Rightarrow> c \<noteq> HASH"
    by simp
  have t': "\<not> tabbed (tailText (Body ?e'))"
    by code_simp
  note a = String_reparses [OF h1 h2, of "''f''" "[]", unfolded if_P [OF t] u]
  note b = String_reparses [OF h1' h2', of "''f''" "[]", unfolded if_not_P [OF t']]
  from a b show ?thesis by simp
qed

text \<open>
  C5, counterexample: the command \<open>cmd a\<close> with the continuation line \<open>b\<close>. \<open>String\<close>
  writes the body without the tab of the continuation line, so the tokenizer reads
  \<open>cmd a\<close> alone, with the body \<open>a\<close>, and leaves \<open>b\<close> for a second expression. The two
  bodies differ as texts and as sequences of white-space separated fields.
\<close>

theorem String_roundtrip_counterexample:
  "Decode (NewDecoder (''cmd a'' @ [NL, TAB] @ ''b'' @ [NL]))
     = (Inr \<lparr>Line = 1, Comment = [], Name = ''cmd'', Body = ''a'' @ [NL] @ ''b'' @ [NL]\<rparr>,
        \<lparr>input = [], line = 2\<rparr>)
   \<and> String (Expanded \<lparr>Line = 1, Comment = [], Name = ''cmd'',
                         Body = ''a'' @ [NL] @ ''b'' @ [NL]\<rparr> [] [])
     = ''cmd a'' @ [NL] @ ''b'' @ [NL]
   \<and> Decode (NewDecoder (''cmd a'' @ [NL] @ ''b'' @ [NL]))
     = (Inr \<lparr>Line = 1, Comment = [], Name = ''cmd'', Body = ''a'' @ [NL]\<rparr>,
        \<lparr>input = ''b'' @ [NL], line = 1\<rparr>)
   \<and> bodyText (''a'' @ [NL]) \<noteq> bodyText (''a'' @ [NL] @ ''b'' @ [NL])
   \<and> Fields (''a'' @ [NL]) \<noteq> Fields (''a'' @ [NL] @ ''b'' @ [NL])"
  by code_simp

text \<open>
  Two more inputs whose text does not read back: a line that starts with a carriage
  return has the empty name, or a name that starts with \<open>#\<close>, and its text is read as a
  syntax error, or as a comment.
\<close>

lemma String_loses_empty_name:
  "Decode (NewDecoder ([CHR 0x0D] @ '' x'' @ [NL]))
     = (Inr \<lparr>Line = 1, Comment = [], Name = [], Body = ''x'' @ [NL]\<rparr>, \<lparr>input = [], line = 1\<rparr>)
   \<and> String (Expanded \<lparr>Line = 1, Comment = [], Name = [], Body = ''x'' @ [NL]\<rparr> [] [])
     = '' x'' @ [NL]
   \<and> Decode (NewDecoder ('' x'' @ [NL]))
     = (Inl (SyntaxError 1 ''unexpected whitespace at start of line''), \<lparr>input = [], line = 1\<rparr>)"
  by code_simp

lemma String_loses_hash_name:
  "Decode (NewDecoder ([CHR 0x0D] @ ''#x y'' @ [NL]))
     = (Inr \<lparr>Line = 1, Comment = [], Name = ''#x'', Body = ''y'' @ [NL]\<rparr>, \<lparr>input = [], line = 1\<rparr>)
   \<and> String (Expanded \<lparr>Line = 1, Comment = [], Name = ''#x'', Body = ''y'' @ [NL]\<rparr> [] [])
     = ''#x y'' @ [NL]
   \<and> Decode (NewDecoder (''#x y'' @ [NL]))
     = (Inr \<lparr>Line = 2, Comment = ''#x y'' @ [NL], Name = [], Body = []\<rparr>, \<lparr>input = [], line = 2\<rparr>)"
  by code_simp


section \<open>Properties of the expansion engine\<close>

subsection \<open>The sticky error\<close>

lemma ExpandingDecode_loop_err:
  "ExpandingDecode_loop n d = Some (Err e, d') \<Longrightarrow> err d' = Some e"
proof (induction n d rule: ExpandingDecode_loop.induct)
  case (1 d)
  then show ?case by (simp add: ExpandingDecode_loop.simps)
next
  case (2 n d)
  show ?case
  proof (cases "length (pending d) > 0")
    case True
    with "2.prems" show ?thesis by (simp add: ExpandingDecode_loop.simps)
  next
    case np: False
    show ?thesis
    proof (cases "length (decoderStack d) = 0")
      case True
      with np "2.prems" show ?thesis by (auto simp: ExpandingDecode_loop.simps)
    next
      case ns: False
      obtain r dc' where dd: "Decode (dec (last (decoderStack d))) = (r, dc')"
        by (metis surj_pair)
      show ?thesis
      proof (cases r)
        case (Inl x)
        show ?thesis
        proof (cases "x = EOF")
          case True
          with np ns dd Inl "2.prems" "2.IH"(1) show ?thesis
            by (simp add: ExpandingDecode_loop.simps Let_def)
        next
          case False
          with np ns dd Inl "2.prems" show ?thesis
            by (cases x) (auto simp: ExpandingDecode_loop.simps Let_def)
        qed
      next
        case (Inr rawExpr)
        with np ns dd "2.prems" "2.IH"(2) show ?thesis
          by (auto simp: ExpandingDecode_loop.simps Let_def
              split: option.splits result.splits prod.splits)
      qed
    qed
  qed
qed

lemma ExpandingDecode_sticky:
  assumes "ExpandingDecode n d = Some (Err e, d')"
  shows "ExpandingDecode m d' = Some (Err e, d')"
proof -
  have "err d' = Some e"
    using assms by (auto simp: ExpandingDecode_def split: option.splits dest: ExpandingDecode_loop_err)
  then show ?thesis by (simp add: ExpandingDecode_def)
qed

lemma ExpandingDecode_calls_sticky:
  "ExpandingDecode m d' = Some (Err e, d') \<Longrightarrow> err d' = Some e \<Longrightarrow>
   ExpandingDecode_calls fuels d' = (replicate (length fuels) (Some (Err e)), d')"
  by (induction fuels) (simp_all add: ExpandingDecode_def)


text \<open>
  C2: once a call of \<open>Decode\<close> of the engine has returned an error \<open>e\<close>, every later
  call returns \<open>e\<close> again, whatever its bound, and leaves the engine as it is: nothing
  more is read or expanded. (This holds of every error, \<open>io.EOF\<close> included.)
\<close>

theorem Decode_error_sticky:
  assumes "ExpandingDecode n d = Some (Err e, d')"
  shows "ExpandingDecode_calls fuels d' = (replicate (length fuels) (Some (Err e)), d')"
proof -
  have "err d' = Some e"
    using assms
    by (auto simp: ExpandingDecode_def split: option.splits dest: ExpandingDecode_loop_err)
  moreover from assms have "ExpandingDecode n d' = Some (Err e, d')"
    by (rule ExpandingDecode_sticky)
  ultimately show ?thesis by (rule ExpandingDecode_calls_sticky [rotated])
qed

text \<open>
  C2, witness: a file whose first line starts with a space; the first call fails with the
  syntax error and three more calls return it again.
\<close>

theorem Decode_error_sticky_witness:
  "map_option fst
     (ExpandingDecode 2 (NewExpandingDecoder ''main.lb'' (MapFS [(''main.lb'', '' x'' @ [NL])])))
     = Some (Err (ExpressionError
                    (Expanded \<lparr>Line = 1, Comment = [], Name = [], Body = []\<rparr> ''main.lb'' [])
                    (ErrorText ''unexpected whitespace at start of line'')))
   \<and> fst (ExpandingDecode_calls [0, 1, 7]
            (snd (the (ExpandingDecode 2
               (NewExpandingDecoder ''main.lb'' (MapFS [(''main.lb'', '' x'' @ [NL])]))))))
     = [Some (Err (ExpressionError
                    (Expanded \<lparr>Line = 1, Comment = [], Name = [], Body = []\<rparr> ''main.lb'' [])
                    (ErrorText ''unexpected whitespace at start of line''))),
        Some (Err (ExpressionError
                    (Expanded \<lparr>Line = 1, Comment = [], Name = [], Body = []\<rparr> ''main.lb'' [])
                    (ErrorText ''unexpected whitespace at start of line''))),
        Some (Err (ExpressionError
                    (Expanded \<lparr>Line = 1, Comment = [], Name = [], Body = []\<rparr> ''main.lb'' [])
                    (ErrorText ''unexpected whitespace at start of line'')))]"
proof -
  let ?d = "NewExpandingDecoder ''main.lb'' (MapFS [(''main.lb'', '' x'' @ [NL])])"
  let ?e = "ExpressionError
              (Expanded \<lparr>Line = 1, Comment = [], Name = [], Body = []\<rparr> ''main.lb'' [])
              (ErrorText ''unexpected whitespace at start of line'')"
  have a: "map_option fst (ExpandingDecode 2 ?d) = Some (Err ?e)"
    by code_simp
  then obtain d' where b: "ExpandingDecode 2 ?d = Some (Err ?e, d')"
    by (cases "ExpandingDecode 2 ?d") auto
  have "ExpandingDecode_calls [0, 1, 7] d' = (replicate (length [0, 1, 7 :: nat]) (Some (Err ?e)), d')"
    by (rule Decode_error_sticky [OF b])
  then have "fst (ExpandingDecode_calls [0, 1, 7] d') = [Some (Err ?e), Some (Err ?e), Some (Err ?e)]"
    by (simp add: numeral_3_eq_3)
  with a b show ?thesis by simp
qed


subsection \<open>The call stack and termination\<close>












lemma expand_mono:
  "expand n d expr = Some r \<Longrightarrow> n \<le> m \<Longrightarrow> expand m d expr = Some r"
  "expandTemplate n d t c = Some r \<Longrightarrow> n \<le> m \<Longrightarrow> expandTemplate m d t c = Some r"
  "expandLoop n d t c args dc ex = Some r \<Longrightarrow> n \<le> m \<Longrightarrow> expandLoop m d t c args dc ex = Some r"
proof (induction n d expr and n d t c and n d t c args dc ex arbitrary: r m and r m and r m
    rule: expand_expandTemplate_expandLoop.induct)
  case (1 n d expr)
  show ?case
  proof (cases "Name (Expression expr) = ''define'' \<or> Name (Expression expr) = ''include''
      \<or> Name (Expression expr) = []")
    case True
    with "1.prems"(1) show ?thesis
      by (auto simp: expand.simps [of n d expr] expand.simps [of m d expr])
  next
    case False
    then have nd: "Name (Expression expr) \<noteq> ''define''"
      and ni: "Name (Expression expr) \<noteq> ''include''" and ne: "Name (Expression expr) \<noteq> []"
      by simp_all
    show ?thesis
    proof (cases "map_of (defs d) (Name (Expression expr))")
      case None
      with nd ni ne "1.prems"(1) show ?thesis
        by (simp add: expand.simps [of n d expr] expand.simps [of m d expr])
    next
      case (Some t)
      show ?thesis
      proof (cases "tbody t = []")
        case True
        with Some nd ni ne "1.prems"(1) show ?thesis
          by (simp add: expand.simps [of n d expr] expand.simps [of m d expr])
      next
        case nb: False
        from "1.prems"(1) Some nd ni ne nb obtain k where n: "n = Suc k"
          by (cases n) (auto simp: expand.simps [of 0 d expr])
        with "1.prems"(2) obtain k' where m: "m = Suc k'" "k \<le> k'" by (cases m) auto
        from "1.prems"(1) Some nd ni ne nb n have "expandTemplate k d t expr = Some r"
          by (simp add: expand.simps [of "Suc k" d expr])
        from "1.IH" [OF nd ni ne Some nb n this m(2)]
        show ?thesis using Some nd ni ne nb m by (simp add: expand.simps [of "Suc k'" d expr])
      qed
    qed
  qed
next
  case (2 n d t callsite0)
  define callsite where "callsite = withStack callsite0 (framesCopy (callStack d))"
  obtain initial cs where pu: "push (callStack d) callsite = (initial, cs)"
    by (metis surj_pair)
  define args where "args = ParseArgs (Body (Expression callsite)) (int (length (tparams t)))"
  show ?case
  proof (cases "initial \<and> length args = length (tparams t)")
    case False
    with pu "2.prems"(1) show ?thesis
      by (auto simp: expandTemplate.simps [of n d t callsite0]
          expandTemplate.simps [of m d t callsite0] callsite_def [symmetric]
          args_def [symmetric] Let_def)
  next
    case True
    then have ini: initial and la: "length args = length (tparams t)" by simp_all
    from "2.prems"(1) pu ini la obtain x where
      lp: "expandLoop n (d\<lparr>callStack := cs\<rparr>) t callsite args (NewDecoder (tbody t)) [] = Some x"
      by (auto simp: expandTemplate.simps [of n d t callsite0] callsite_def [symmetric]
          args_def [symmetric] Let_def split: option.splits)
    from "2.IH" [OF callsite_def pu [symmetric] refl _ args_def _ lp "2.prems"(2)] ini la
    have lp': "expandLoop m (d\<lparr>callStack := cs\<rparr>) t callsite args (NewDecoder (tbody t)) [] = Some x"
      by simp
    from "2.prems"(1) pu ini la lp lp' show ?thesis
      by (simp add: expandTemplate.simps [of n d t callsite0]
          expandTemplate.simps [of m d t callsite0] callsite_def [symmetric]
          args_def [symmetric] Let_def)
  qed
next
  case (3 n d t callsite args dc expanded)
  obtain x dc' where dd: "Decode dc = (x, dc')" by (metis surj_pair)
  show ?case
  proof (cases x)
    case (Inl e)
    with dd "3.prems"(1) show ?thesis
      by (simp add: expandLoop.simps [of n d t callsite args dc]
          expandLoop.simps [of m d t callsite args dc])
  next
    case (Inr b)
    obtain name' u1 where e1: "Expand (Name b) (getParam t args) [] = (name', u1)"
      by (metis surj_pair)
    obtain body' u2 where e2: "Expand (Body b) (getParam t args) u1 = (body', u2)"
      by (metis surj_pair)
    define xc where "xc = Expanded (b\<lparr>Name := name', Body := body'\<rparr>) (File (texpanded t)) []"
    show ?thesis
    proof (cases "u2 = [] \<and> name' \<noteq> ''define''")
      case False
      with dd Inr e1 e2 "3.prems"(1) show ?thesis
        by (auto simp: expandLoop.simps [of n d t callsite args dc]
            expandLoop.simps [of m d t callsite args dc] Let_def)
    next
      case True
      then have u2: "u2 = []" and nd: "name' \<noteq> ''define''" by simp_all
      from dd Inr e1 e2 u2 nd "3.prems"(1) obtain res yaa where
        ex: "expand n d xc = Some (res, yaa)"
        by (auto simp: expandLoop.simps [of n d t callsite args dc] Let_def xc_def
            split: option.splits)
      have ex': "expand m d xc = Some (res, yaa)"
        using "3.IH"(1) [OF dd [symmetric] Inr e1 [symmetric] e2 [symmetric] xc_def _ nd ex
            "3.prems"(2)] u2 by simp
      show ?thesis
      proof (cases res)
        case (Err e)
        with dd Inr e1 e2 u2 nd ex ex' "3.prems"(1) show ?thesis
          by (auto simp: expandLoop.simps [of n d t callsite args dc]
              expandLoop.simps [of m d t callsite args dc] Let_def xc_def)
      next
        case (Panicked p)
        with dd Inr e1 e2 u2 nd ex ex' "3.prems"(1) show ?thesis
          by (auto simp: expandLoop.simps [of n d t callsite args dc]
              expandLoop.simps [of m d t callsite args dc] Let_def xc_def)
      next
        case (Ok x1)
        show ?thesis
        proof (cases x1)
          case None
          with Ok dd Inr e1 e2 u2 nd ex "3.prems"(1)
          have "expandLoop n yaa t callsite args dc' expanded = Some r"
            by (simp add: expandLoop.simps [of n d t callsite args dc] Let_def xc_def)
          from "3.IH"(2) [OF dd [symmetric] Inr e1 [symmetric] e2 [symmetric] xc_def _ nd
              ex [unfolded Ok] refl refl None this "3.prems"(2)] u2
          have "expandLoop m yaa t callsite args dc' expanded = Some r" by simp
          with None Ok dd Inr e1 e2 u2 nd ex' show ?thesis
            by (simp add: expandLoop.simps [of m d t callsite args dc] Let_def xc_def)
        next
          case (Some res')
          define xe where "xe = (if length (Stack res') = 0
            then withStack res' (framesCopy (callStack yaa)) else res')"
          with Some Ok dd Inr e1 e2 u2 nd ex "3.prems"(1)
          have "expandLoop n yaa t callsite args dc' (expanded @ [xe]) = Some r"
            by (simp add: expandLoop.simps [of n d t callsite args dc] Let_def xc_def)
          from "3.IH"(3) [OF dd [symmetric] Inr e1 [symmetric] e2 [symmetric] xc_def _ nd
              ex [unfolded Ok] refl refl Some xe_def this "3.prems"(2)] u2
          have "expandLoop m yaa t callsite args dc' (expanded @ [xe]) = Some r" by simp
          with Some Ok dd Inr e1 e2 u2 nd ex' show ?thesis
            by (simp add: expandLoop.simps [of m d t callsite args dc] Let_def xc_def xe_def)
        qed
      qed
    qed
  qed
qed

lemma ExpandingDecode_loop_mono:
  "ExpandingDecode_loop n d = Some r \<Longrightarrow> n \<le> m \<Longrightarrow> ExpandingDecode_loop m d = Some r"
proof (induction n d arbitrary: m r rule: ExpandingDecode_loop.induct)
  case (1 d)
  then show ?case by (simp add: ExpandingDecode_loop.simps)
next
  case (2 n d)
  from "2.prems"(2) obtain k where m: "m = Suc k" "n \<le> k" by (cases m) auto
  show ?case
  proof (cases "length (pending d) > 0 \<or> length (decoderStack d) = 0")
    case True
    with "2.prems"(1) m show ?thesis
      by (auto simp: ExpandingDecode_loop.simps(2))
  next
    case False
    then have np: "\<not> length (pending d) > 0" and ns: "length (decoderStack d) \<noteq> 0" by simp_all
    obtain x dc' where dd: "Decode (dec (last (decoderStack d))) = (x, dc')"
      by (metis surj_pair)
    show ?thesis
    proof (cases x)
      case (Inl e)
      show ?thesis
      proof (cases "e = EOF")
        case True
        with np ns dd Inl "2.prems"(1) "2.IH"(1) [OF np ns refl dd [symmetric] Inl refl True _ m(2)] m
        show ?thesis
          by (simp add: ExpandingDecode_loop.simps(2) Let_def)
      next
        case False
        with np ns dd Inl "2.prems"(1) m show ?thesis
          by (cases e) (simp_all add: ExpandingDecode_loop.simps(2) Let_def)
      qed
    next
      case (Inr rawExpr)
      define d1 where "d1 = d\<lparr>decoderStack :=
          butlast (decoderStack d) @ [(last (decoderStack d))\<lparr>dec := dc'\<rparr>]\<rparr>"
      define expr where "expr = Expanded rawExpr
          (filePath d (fileName (last (decoderStack d)))) []"
      from np ns dd Inr "2.prems"(1) obtain res d2 where
        ex: "expand n d1 expr = Some (res, d2)"
        by (auto simp: ExpandingDecode_loop.simps(2) Let_def d1_def expr_def split: option.splits)
      then have ex': "expand k d1 expr = Some (res, d2)" using m(2) by (rule expand_mono(1))
      show ?thesis
      proof (cases "res = Ok None")
        case True
        with np ns dd Inr ex "2.prems"(1) have "ExpandingDecode_loop n d2 = Some r"
          by (simp add: ExpandingDecode_loop.simps(2) Let_def d1_def expr_def)
        from "2.IH"(2) [OF np ns refl dd [symmetric] Inr d1_def expr_def
            ex [unfolded True] refl refl refl this m(2)]
        have "ExpandingDecode_loop k d2 = Some r" .
        with True np ns dd Inr ex' m show ?thesis
          by (simp add: ExpandingDecode_loop.simps(2) Let_def d1_def expr_def)
      next
        case False
        with np ns dd Inr ex ex' "2.prems"(1) m show ?thesis
          by (cases res; cases "case res of Ok x \<Rightarrow> x | _ \<Rightarrow> None")
            (simp_all add: ExpandingDecode_loop.simps(2) Let_def d1_def expr_def)
      qed
    qed
  qed
qed






lemma ExpandingDecode_mono:
  "ExpandingDecode n d = Some r \<Longrightarrow> n \<le> m \<Longrightarrow> ExpandingDecode m d = Some r"
  by (auto simp: ExpandingDecode_def split: option.splits dest: ExpandingDecode_loop_mono)




text \<open>
  C6: the script defines \<open>a\<close> with the body line \<open>a\<close> and calls it. The call stack is
  empty before the call at line 3. The inner call of \<open>a\<close> is pushed by \<open>push\<close>, which
  reports the recursion, and \<open>expandTemplate\<close> returns before its \<open>pop\<close> is deferred. The
  \<open>pop\<close> of the outer call then removes the frame of the inner call and the name \<open>a\<close>:
  the frame of the outer call stays on the stack, and \<open>seen\<close> no longer mirrors
  \<open>frames\<close>.
\<close>

theorem recursion_leaves_frame:
  "callStack (NewExpandingDecoder ''main.lb''
     (MapFS [(''main.lb'', ''define a'' @ [NL, TAB] @ ''a'' @ [NL] @ ''a'' @ [NL])]))
     = \<lparr>frames = [], seen = {}\<rparr>
   \<and> map_option fst
       (ExpandingDecode 5 (NewExpandingDecoder ''main.lb''
          (MapFS [(''main.lb'', ''define a'' @ [NL, TAB] @ ''a'' @ [NL] @ ''a'' @ [NL])])))
     = Some (Err (ExpressionError
                    (Expanded \<lparr>Line = 1, Comment = [], Name = ''a'', Body = [NL]\<rparr> ''main.lb''
                       [Expanded \<lparr>Line = 3, Comment = [], Name = ''a'', Body = [NL]\<rparr>
                          ''main.lb'' []])
                    (ErrorText (''recursion detected in template a:'' @ [NL]
                       @ ''    main.lb:3: main@3> a'' @ [NL]
                       @ ''    main.lb:3: a@1> a''))))
   \<and> map_option (callStack \<circ> snd)
       (ExpandingDecode 5 (NewExpandingDecoder ''main.lb''
          (MapFS [(''main.lb'', ''define a'' @ [NL, TAB] @ ''a'' @ [NL] @ ''a'' @ [NL])])))
     = Some \<lparr>frames = [Expanded \<lparr>Line = 3, Comment = [], Name = ''a'', Body = [NL]\<rparr>
                           ''main.lb'' []],
              seen = {}\<rparr>"
  by code_simp

subsection \<open>Scripts without definitions and includes\<close>

lemma NewExpandingDecoder_reading:
  "fs fname = Inr s \<Longrightarrow>
     SetRoot (NewExpandingDecoder fname fs) r = reading fs r fname (NewDecoder s)"
  by (simp add: NewExpandingDecoder_def SetRoot_def reading_def)

lemma expand_plain:
  assumes "Name e \<noteq> ''define''" and "Name e \<noteq> ''include''"
  shows "expand n (reading fs rt fname dc) (Expanded e f []) =
           Some (Ok (Some (Expanded e f [])), reading fs rt fname dc)"
  using assms
  by (simp add: expand.simps [of n] reading_def withStack_def framesCopy_def)

lemma reading_step_expression:
  assumes "Decode dc = (Inr e, dc')" and "Name e \<noteq> ''define''" and "Name e \<noteq> ''include''"
  shows "ExpandingDecode (Suc n) (reading fs rt fname dc) =
           Some (Ok (Expanded e (Join [rt, fname]) []), reading fs rt fname dc')"
proof -
  have d1: "(reading fs rt fname dc)\<lparr>decoderStack :=
              butlast (decoderStack (reading fs rt fname dc))
                @ [(last (decoderStack (reading fs rt fname dc)))\<lparr>dec := dc'\<rparr>]\<rparr>
            = reading fs rt fname dc'"
    by (simp add: reading_def)
  have fp: "filePath (reading fs rt fname dc) (fileName (last (decoderStack (reading fs rt fname dc))))
              = Join [rt, fname]"
    by (simp add: reading_def filePath_def)
  have pd: "pending (reading fs rt fname dc) = []" "decoderStack (reading fs rt fname dc) \<noteq> []"
    "err (reading fs rt fname dc) = None"
    "dec (last (decoderStack (reading fs rt fname dc))) = dc"
    by (simp_all add: reading_def)
  show ?thesis
    unfolding ExpandingDecode_def
    by (simp add: pd ExpandingDecode_loop.simps(2) [of n "reading fs rt fname dc"] Let_def
        assms(1) d1 fp expand_plain [OF assms(2,3)] del: One_nat_def)
qed

lemma popInclude_fields [simp]:
  "decoderStack (popInclude d) = decoderStack d" "pending (popInclude d) = pending d"
  by (simp_all add: popInclude_def)

lemma ExpandingDecode_loop_finished:
  "pending d = [] \<Longrightarrow> decoderStack d = [] \<Longrightarrow>
     ExpandingDecode_loop (Suc n) d = Some (Err EOF, d\<lparr>err := Some EOF\<rparr>)"
  by (simp add: ExpandingDecode_loop.simps(2))

lemma reading_step_error:
  assumes "Decode dc = (Inl e, dc')"
  shows "\<exists>d'. ExpandingDecode (Suc (Suc n)) (reading fs rt fname dc) =
                 Some (Err (engineError (Join [rt, fname]) e), d')"
proof -
  have fp: "filePath (reading fs rt fname dc) (fileName (last (decoderStack (reading fs rt fname dc))))
              = Join [rt, fname]"
    by (simp add: reading_def filePath_def)
  have pd: "pending (reading fs rt fname dc) = []" "decoderStack (reading fs rt fname dc) \<noteq> []"
    "err (reading fs rt fname dc) = None"
    "dec (last (decoderStack (reading fs rt fname dc))) = dc"
    by (simp_all add: reading_def)
  have bl: "butlast (decoderStack (reading fs rt fname dc)) = []"
    by (simp add: reading_def)
  show ?thesis
  proof (cases e)
    case EOF
    then show ?thesis
      unfolding ExpandingDecode_def
      by (simp add: pd bl ExpandingDecode_loop.simps(2) [of "Suc n" "reading fs rt fname dc"] Let_def
          assms engineError_def ExpandingDecode_loop_finished)
  qed (simp_all add: ExpandingDecode_def pd
      ExpandingDecode_loop.simps(2) [of "Suc n" "reading fs rt fname dc"] Let_def
      assms engineError_def fp)
qed

lemma reading_calls:
  assumes "list_all (\<lambda>f. 2 \<le> f) fuels"
    and "Decode_all dc = (toks, fin)"
    and "list_all (\<lambda>e. Name e \<noteq> ''define'' \<and> Name e \<noteq> ''include'') toks"
  shows "fst (ExpandingDecode_calls fuels (reading fs rt fname dc)) =
           take (length fuels) (map (\<lambda>e. Some (Ok (Expanded e (Join [rt, fname]) []))) toks)
             @ replicate (length fuels - length toks)
                 (Some (Err (engineError (Join [rt, fname]) fin)))"
  using assms
proof (induction fuels arbitrary: dc toks fin)
  case Nil
  then show ?case by simp
next
  case (Cons f fuels)
  from Cons.prems(1) obtain n where f: "f = Suc (Suc n)" and rest: "list_all (\<lambda>f. 2 \<le> f) fuels"
    by (cases f; cases "f - 1") auto
  obtain r dc' where dd: "Decode dc = (r, dc')" by (metis surj_pair)
  show ?case
  proof (cases r)
    case (Inl e)
    with dd Cons.prems(2) have tk: "toks = []" "fin = e"
      by (simp_all add: Decode_all.simps [of dc])
    from dd Inl obtain d' where
      st: "ExpandingDecode f (reading fs rt fname dc) = Some (Err (engineError (Join [rt, fname]) e), d')"
      unfolding f using reading_step_error by blast
    have "err d' = Some (engineError (Join [rt, fname]) e)"
      using st
      by (auto simp: ExpandingDecode_def split: option.splits dest: ExpandingDecode_loop_err)
    moreover have "ExpandingDecode f d' = Some (Err (engineError (Join [rt, fname]) e), d')"
      using st by (rule ExpandingDecode_sticky)
    ultimately have "ExpandingDecode_calls fuels d' =
        (replicate (length fuels) (Some (Err (engineError (Join [rt, fname]) e))), d')"
      by (rule ExpandingDecode_calls_sticky [rotated])
    with st tk show ?thesis by simp
  next
    case (Inr x)
    obtain toks' fin' where da: "Decode_all dc' = (toks', fin')" by (metis surj_pair)
    with dd Inr Cons.prems(2) have tk: "toks = x # toks'" "fin = fin'"
      by (simp_all add: Decode_all.simps [of dc])
    with Cons.prems(3) have nx: "Name x \<noteq> ''define''" "Name x \<noteq> ''include''"
      and rest': "list_all (\<lambda>e. Name e \<noteq> ''define'' \<and> Name e \<noteq> ''include'') toks'"
      by simp_all
    have st: "ExpandingDecode f (reading fs rt fname dc) =
           Some (Ok (Expanded x (Join [rt, fname]) []), reading fs rt fname dc')"
      unfolding f using dd Inr nx by (simp add: reading_step_expression)
    from Cons.IH [OF rest da rest'] st tk show ?thesis by (auto split: prod.splits)
  qed
qed

text \<open>
  C3: let the file \<open>fname\<close> hold a script whose expressions, as the tokenizer returns
  them up to its first error \<open>fin\<close>, are \<open>toks\<close>, none of them named \<open>define\<close> or
  \<open>include\<close>. Then successive calls of the engine's \<open>Decode\<close> (each with a bound of at
  least 2) on the engine made for \<open>fname\<close>, with any root \<open>rt\<close> set, return the
  expressions of \<open>toks\<close> in order, each with its line, comment, name and body unchanged,
  the file \<open>path.Join(rt, fname)\<close> and an empty stack, and after them the error \<open>fin\<close>
  (a syntax error wrapped with file and line).
\<close>

theorem no_define_include_passthrough:
  assumes "fs fname = Inr script"
    and "Decode_all (NewDecoder script) = (toks, fin)"
    and "list_all (\<lambda>e. Name e \<noteq> ''define'' \<and> Name e \<noteq> ''include'') toks"
    and "list_all (\<lambda>f. 2 \<le> f) fuels"
  shows "fst (ExpandingDecode_calls fuels (SetRoot (NewExpandingDecoder fname fs) rt)) =
           take (length fuels) (map (\<lambda>e. Some (Ok (Expanded e (Join [rt, fname]) []))) toks)
             @ replicate (length fuels - length toks)
                 (Some (Err (engineError (Join [rt, fname]) fin)))"
  using assms by (simp add: NewExpandingDecoder_reading reading_calls)


text \<open>
  C3, witness: a script with a comment, a command, a blank line and a command with a
  continuation line.
\<close>

theorem no_define_include_passthrough_witness:
  "fst (ExpandingDecode_calls [2, 2, 2, 5, 2]
          (SetRoot (NewExpandingDecoder ''s.lb''
             (MapFS [(''s.lb'', ''# c'' @ [NL] @ ''echo hi'' @ [NL, NL] @ ''run a b'' @ [NL, TAB]
                        @ ''more'' @ [NL])])) ''pkg/''))
   = [Some (Ok (Expanded \<lparr>Line = 2, Comment = ''# c'' @ [NL], Name = ''echo'',
                           Body = ''hi'' @ [NL]\<rparr> ''pkg/s.lb'' [])),
      Some (Ok (Expanded \<lparr>Line = 3, Comment = [], Name = [], Body = [NL]\<rparr> ''pkg/s.lb'' [])),
      Some (Ok (Expanded \<lparr>Line = 4, Comment = [], Name = ''run'',
                           Body = ''a b'' @ [NL] @ ''more'' @ [NL]\<rparr> ''pkg/s.lb'' [])),
      Some (Err EOF), Some (Err EOF)]"
proof -
  let ?script = "''# c'' @ [NL] @ ''echo hi'' @ [NL, NL] @ ''run a b'' @ [NL, TAB] @ ''more'' @ [NL]"
  let ?toks = "[\<lparr>Line = 2, Comment = ''# c'' @ [NL], Name = ''echo'', Body = ''hi'' @ [NL]\<rparr>,
                \<lparr>Line = 3, Comment = [], Name = [], Body = [NL]\<rparr>,
                \<lparr>Line = 4, Comment = [], Name = ''run'', Body = ''a b'' @ [NL] @ ''more'' @ [NL]\<rparr>]"
  have h1: "MapFS [(''s.lb'', ?script)] ''s.lb'' = Inr ?script"
    by (simp add: MapFS_def)
  have h2: "Decode_all (NewDecoder ?script) = (?toks, EOF)"
    by code_simp
  have h3: "list_all (\<lambda>e. Name e \<noteq> ''define'' \<and> Name e \<noteq> ''include'') ?toks"
    by simp
  have h4: "list_all (\<lambda>f. 2 \<le> f) [2, 2, 2, 5, 2 :: nat]"
    by simp
  have j: "Join [''pkg/'', ''s.lb''] = ''pkg/s.lb''"
    by code_simp
  show ?thesis
    using no_define_include_passthrough
      [where fs = "MapFS [(''s.lb'', ?script)]" and fname = "''s.lb''" and rt = "''pkg/''",
        OF h1 h2 h3 h4]
    by (simp add: j engineError_def)
qed


subsection \<open>Template expansion\<close>

text \<open>
  C4: for the script that defines \<open>greet\<close> with the parameter \<open>name\<close> and the body line
  \<open>echo Hello, $name!\<close> and then calls \<open>greet Alice\<close>, the engine returns exactly one
  expression and then end of input. The expression has the name \<open>echo\<close> and the body
  \<open>Hello, Alice!\<close> followed by the newline that ends the line, and \<open>String\<close> renders it as
  \<open>echo Hello, Alice!\<close> and a newline.
\<close>

theorem greet_Alice:
  "fst (ExpandingDecode_calls [3, 3]
          (NewExpandingDecoder ''example.lb''
             (MapFS [(''example.lb'',
                ''define greet name'' @ [NL, TAB] @ ''echo Hello, $name!'' @ [NL]
                  @ ''greet Alice'' @ [NL])])))
     = [Some (Ok (Expanded
                    \<lparr>Line = 1, Comment = [], Name = ''echo'', Body = ''Hello, Alice!'' @ [NL]\<rparr>
                    ''example.lb''
                    [Expanded \<lparr>Line = 3, Comment = [], Name = ''greet'', Body = ''Alice'' @ [NL]\<rparr>
                       ''example.lb'' []])),
        Some (Err EOF)]
   \<and> String (Expanded
                \<lparr>Line = 1, Comment = [], Name = ''echo'', Body = ''Hello, Alice!'' @ [NL]\<rparr>
                ''example.lb''
                [Expanded \<lparr>Line = 3, Comment = [], Name = ''greet'', Body = ''Alice'' @ [NL]\<rparr>
                   ''example.lb'' []])
     = ''echo Hello, Alice!'' @ [NL]"
  by code_simp


subsection \<open>Definitions\<close>

text \<open>
  The name of a template is the first field of the header line of its definition, cut at
  the first run of whitespace, so it holds no whitespace character.
\<close>

lemma IndexSpace_first:
  "IndexSpace s = Some i \<Longrightarrow> j < i \<Longrightarrow> spaceWidth (drop j s) = 0"
proof (induction s arbitrary: i j)
  case Nil
  then show ?case by simp
next
  case (Cons c s)
  from Cons.prems have z: "spaceWidth (c # s) = 0" by (auto split: if_splits)
  with Cons.prems obtain k where k: "IndexSpace s = Some k" "i = Suc k" by auto
  show ?case
  proof (cases j)
    case 0
    with z show ?thesis by simp
  next
    case (Suc j')
    with Cons.prems(2) k(2) have "j' < k" by simp
    from Cons.IH [OF k(1) this] Suc show ?thesis by simp
  qed
qed

lemma IndexSpace_None: "IndexSpace s = None \<Longrightarrow> j < length s \<Longrightarrow> spaceWidth (drop j s) = 0"
proof (induction s arbitrary: j)
  case Nil
  then show ?case by simp
next
  case (Cons c s)
  from Cons.prems have z: "spaceWidth (c # s) = 0" and n: "IndexSpace s = None"
    by (auto split: if_splits)
  show ?case
  proof (cases j)
    case 0
    with z show ?thesis by simp
  next
    case (Suc j')
    with Cons.prems(2) have "j' < length s" by simp
    from Cons.IH [OF n this] Suc show ?thesis by simp
  qed
qed

lemma cutField_field_no_space:
  "set (fst (cutField s)) \<inter> {SP, TAB, NL, CHR 0x0D, CHR 0x0B, CHR 0x0C} = {}"
proof -
  define t where "t = TrimLeftSpace s"
  have sp: "c \<in> {SP, TAB, NL, CHR 0x0D, CHR 0x0B, CHR 0x0C} \<Longrightarrow> [c] \<in> set spaceSeqs" for c
    by (auto simp: spaceSeqs_def)
  have no: "spaceWidth (drop j t) = 0 \<Longrightarrow> j < length t \<Longrightarrow>
      t ! j \<notin> {SP, TAB, NL, CHR 0x0D, CHR 0x0B, CHR 0x0C}" for j
  proof
    assume z: "spaceWidth (drop j t) = 0" and j: "j < length t"
      and m: "t ! j \<in> {SP, TAB, NL, CHR 0x0D, CHR 0x0B, CHR 0x0C}"
    from j have "drop j t = t ! j # drop (Suc j) t" by (simp add: Cons_nth_drop_Suc)
    then have "HasPrefix (drop j t) [t ! j]" by (simp add: HasPrefix_def)
    with sp [OF m] z show False by (auto simp: spaceWidth_0_iff)
  qed
  show ?thesis
  proof (cases "IndexSpace t")
    case None
    have "t ! j \<notin> {SP, TAB, NL, CHR 0x0D, CHR 0x0B, CHR 0x0C}" if "j < length t" for j
      using IndexSpace_None [OF None that] that by (rule no)
    then have "set t \<inter> {SP, TAB, NL, CHR 0x0D, CHR 0x0B, CHR 0x0C} = {}"
      by (auto simp: in_set_conv_nth)
    with None show ?thesis by (simp add: cutField_def t_def [symmetric])
  next
    case (Some i)
    then have il: "i < length t" by (simp add: IndexSpace_Some)
    have "t ! j \<notin> {SP, TAB, NL, CHR 0x0D, CHR 0x0B, CHR 0x0C}" if "j < i" for j
      using IndexSpace_first [OF Some that] that il by (intro no) simp_all
    then have "set (take i t) \<inter> {SP, TAB, NL, CHR 0x0D, CHR 0x0B, CHR 0x0C} = {}"
      using il by (auto simp: in_set_conv_nth)
    with Some show ?thesis by (simp add: cutField_def t_def [symmetric])
  qed
qed

text \<open>
  So the test of \<open>makeTemplate\<close> for a space, a carriage return, a vertical tab or a form
  feed never fires on a name that \<open>define\<close> passes to it: of the names that \<open>define\<close>
  reads, only the empty one is invalid.
\<close>

lemma define_name_check_never_fires:
  "\<not> ContainsAny (fst (cutField s)) [SP, CHR 0x0D, CHR 0x0B, CHR 0x0C]"
  using cutField_field_no_space [of s] by (auto simp: ContainsAny_def IndexAny_None)

text \<open>
  C8, amended: a \<open>define\<close> expression whose template name (the first field of the
  header line, cut at the first white space) is empty is rejected with a definition
  error, and the engine is left as it was: no template is stored. Every other name is
  taken: \<open>define\<close> fails only if a template of that name exists, and stores the template
  otherwise. The name holds no white space, and no other character of it is tested.
\<close>

theorem define_rejects_empty_name:
  assumes "Name (Expression expr) = ''define''"
    and "CutNL (Body (Expression expr)) = (head, body, found)"
    and "cutField head = (tn, rest)"
  shows "expand n d expr =
           (if tn = []
            then Some (Err (ExpressionError expr (ErrorText ''define: missing name argument'')), d)
            else case map_of (defs d) tn of
                   Some prev \<Rightarrow>
                     Some (Err (ExpressionError expr
                                  (TemplateRedefined tn (File (texpanded prev))
                                     (Line (Expression (texpanded prev))))), d)
                 | None \<Rightarrow>
                     Some (Ok None,
                           d\<lparr>defs := defs d @ [(tn, \<lparr>texpanded = expr, tname = tn,
                                                      tparams = Fields rest, tbody = body\<rparr>)]\<rparr>))
         \<and> set tn \<inter> {SP, TAB, NL, CHR 0x0D, CHR 0x0B, CHR 0x0C} = {}"
proof -
  have tn: "tn = fst (cutField head)" using assms(3) by simp
  have ns: "set tn \<inter> {SP, TAB, NL, CHR 0x0D, CHR 0x0B, CHR 0x0C} = {}"
    unfolding tn by (rule cutField_field_no_space)
  have nc: "\<not> ContainsAny tn [SP, CHR 0x0D, CHR 0x0B, CHR 0x0C]"
    unfolding tn by (rule define_name_check_never_fires)
  have "makeTemplate expr =
          (if tn = [] then Value (Inl (ErrorText ''define: missing name argument''))
           else Value (Inr \<lparr>texpanded = expr, tname = tn, tparams = Fields rest, tbody = body\<rparr>))"
    using assms nc by (simp add: makeTemplate_def)
  then have "expand n d expr =
           (if tn = []
            then Some (Err (ExpressionError expr (ErrorText ''define: missing name argument'')), d)
            else case map_of (defs d) tn of
                   Some prev \<Rightarrow>
                     Some (Err (ExpressionError expr
                                  (TemplateRedefined tn (File (texpanded prev))
                                     (Line (Expression (texpanded prev))))), d)
                 | None \<Rightarrow>
                     Some (Ok None,
                           d\<lparr>defs := defs d @ [(tn, \<lparr>texpanded = expr, tname = tn,
                                                      tparams = Fields rest, tbody = body\<rparr>)]\<rparr>))"
    using assms(1) by (simp add: expand.simps [of n d expr] define'_def split: option.splits)
  with ns show ?thesis by simp
qed

text \<open>
  C8, witness: a \<open>define\<close> whose header line holds spaces only is rejected; the header
  \<open>a\<close>, carriage return, \<open>b\<close> defines the template \<open>a\<close> with the parameter \<open>b\<close>.
\<close>

theorem define_rejects_empty_name_witness:
  "expand 0 (NewExpandingDecoder ''main.lb'' (MapFS []))
     (Expanded \<lparr>Line = 1, Comment = [], Name = ''define'', Body = ''   '' @ [NL] @ ''echo'' @ [NL]\<rparr>
        ''main.lb'' [])
   = Some (Err (ExpressionError
                  (Expanded \<lparr>Line = 1, Comment = [], Name = ''define'',
                              Body = ''   '' @ [NL] @ ''echo'' @ [NL]\<rparr> ''main.lb'' [])
                  (ErrorText ''define: missing name argument'')),
           NewExpandingDecoder ''main.lb'' (MapFS []))
   \<and> map_option (\<lambda>(r, d). (r, map (\<lambda>(k, t). (k, tparams t, tbody t)) (defs d)))
       (expand 0 (NewExpandingDecoder ''main.lb'' (MapFS []))
          (Expanded \<lparr>Line = 1, Comment = [], Name = ''define'',
                      Body = ''a'' @ [CHR 0x0D] @ ''b'' @ [NL] @ ''echo'' @ [NL]\<rparr> ''main.lb'' []))
     = Some (Ok None, [(''a'', [''b''], ''echo'' @ [NL])])"
proof -
  have c: "CutNL (''   '' @ [NL] @ ''echo'' @ [NL]) = (''   '', ''echo'' @ [NL], True)"
    by code_simp
  have f: "cutField ''   '' = ([], [])"
    by code_simp
  have c2: "CutNL (''a'' @ [CHR 0x0D] @ ''b'' @ [NL] @ ''echo'' @ [NL])
              = (''a'' @ [CHR 0x0D] @ ''b'', ''echo'' @ [NL], True)"
    by code_simp
  have f2: "cutField (''a'' @ [CHR 0x0D] @ ''b'') = (''a'', ''b'')"
    by code_simp
  have p2: "Fields ''b'' = [''b'']"
    by code_simp
  have d0: "defs (NewExpandingDecoder ''main.lb'' (MapFS [])) = []"
    by code_simp
  have one: "expand 0 (NewExpandingDecoder ''main.lb'' (MapFS []))
     (Expanded \<lparr>Line = 1, Comment = [], Name = ''define'', Body = ''   '' @ [NL] @ ''echo'' @ [NL]\<rparr>
        ''main.lb'' [])
   = Some (Err (ExpressionError
                  (Expanded \<lparr>Line = 1, Comment = [], Name = ''define'',
                              Body = ''   '' @ [NL] @ ''echo'' @ [NL]\<rparr> ''main.lb'' [])
                  (ErrorText ''define: missing name argument'')),
           NewExpandingDecoder ''main.lb'' (MapFS []))"
    using define_rejects_empty_name [of
        "Expanded \<lparr>Line = 1, Comment = [], Name = ''define'',
                    Body = ''   '' @ [NL] @ ''echo'' @ [NL]\<rparr> ''main.lb'' []"
        "''   ''" "''echo'' @ [NL]" True "[]" "[]" 0 "NewExpandingDecoder ''main.lb'' (MapFS [])"]
      c f
    by simp
  have two: "map_option (\<lambda>(r, d). (r, map (\<lambda>(k, t). (k, tparams t, tbody t)) (defs d)))
       (expand 0 (NewExpandingDecoder ''main.lb'' (MapFS []))
          (Expanded \<lparr>Line = 1, Comment = [], Name = ''define'',
                      Body = ''a'' @ [CHR 0x0D] @ ''b'' @ [NL] @ ''echo'' @ [NL]\<rparr> ''main.lb'' []))
     = Some (Ok None, [(''a'', [''b''], ''echo'' @ [NL])])"
    using define_rejects_empty_name [of
        "Expanded \<lparr>Line = 1, Comment = [], Name = ''define'',
                    Body = ''a'' @ [CHR 0x0D] @ ''b'' @ [NL] @ ''echo'' @ [NL]\<rparr> ''main.lb'' []"
        "''a'' @ [CHR 0x0D] @ ''b''" "''echo'' @ [NL]" True "''a''" "''b''" 0
        "NewExpandingDecoder ''main.lb'' (MapFS [])"]
      c2 f2
    by (simp add: d0 p2)
  from one two show ?thesis by (rule conjI)
qed

text \<open>
  C8, counterexample: a name that contains the control character U+0001 is accepted,
  and the template is stored under it.
\<close>

theorem define_control_character_counterexample:
  "map_option fst
     (expand 0 (NewExpandingDecoder ''main.lb'' (MapFS []))
        (Expanded \<lparr>Line = 1, Comment = [], Name = ''define'',
                    Body = [CHR ''a'', CHR 0x01, CHR ''b''] @ [NL] @ ''echo'' @ [NL]\<rparr>
           ''main.lb'' []))
     = Some (Ok None)
   \<and> map_option (map fst \<circ> defs \<circ> snd)
       (expand 0 (NewExpandingDecoder ''main.lb'' (MapFS []))
          (Expanded \<lparr>Line = 1, Comment = [], Name = ''define'',
                      Body = [CHR ''a'', CHR 0x01, CHR ''b''] @ [NL] @ ''echo'' @ [NL]\<rparr>
             ''main.lb'' []))
     = Some [[CHR ''a'', CHR 0x01, CHR ''b'']]"
  by code_simp


subsection \<open>Include cycles\<close>

text \<open>
  C9: with \<open>main.lb\<close> holding \<open>include other.lb\<close> and \<open>other.lb\<close> holding
  \<open>include main.lb\<close>, the files of the test \<open>TestExpandInclude/cycle\<close>, \<open>expand\<close> appends
  \<open>.linebased\<close> to the path of the include, finds no file \<open>other.lb.linebased\<close> and fails
  with the error of \<open>Open\<close> at \<open>main.lb:1\<close>. The file \<open>other.lb\<close> is never opened and no
  include cycle is reported: the text of the error is not the one that the test expects.
\<close>

theorem include_lb_opens_other_file:
  "map_option fst
     (ExpandingDecode 3
        (NewExpandingDecoder ''main.lb''
           (MapFS [(''main.lb'', ''include other.lb'' @ [NL]),
                   (''other.lb'', ''include main.lb'' @ [NL])])))
     = Some (Err (ExpressionError
                    (Expanded \<lparr>Line = 1, Comment = [], Name = ''include'',
                                Body = ''other.lb'' @ [NL]\<rparr> ''main.lb'' [])
                    (ErrorText ''open other.lb.linebased: file does not exist'')))
   \<and> Error id (ExpressionError
                    (Expanded \<lparr>Line = 1, Comment = [], Name = ''include'',
                                Body = ''other.lb'' @ [NL]\<rparr> ''main.lb'' [])
                    (ErrorText ''open other.lb.linebased: file does not exist''))
       = ''main.lb:1: open other.lb.linebased: file does not exist''
   \<and> ''main.lb:1: open other.lb.linebased: file does not exist''
       \<noteq> ''other.lb:1: include cycle detected: main.lb -> other.lb -> main.lb''"
  by code_simp

text \<open>
  The cycle is found where the files carry the extension that \<open>expand\<close> appends: with
  \<open>main.linebased\<close> holding \<open>include other\<close> and \<open>other.linebased\<close> holding
  \<open>include main\<close>, the text of the error is
  \<open>other.linebased:1: include cycle detected: main.linebased -> other.linebased -> main.linebased\<close>.
\<close>

lemma include_cycle_linebased:
  "map_option (Error id)
     (case ExpandingDecode 3
        (NewExpandingDecoder ''main.linebased''
           (MapFS [(''main.linebased'', ''include other'' @ [NL]),
                   (''other.linebased'', ''include main'' @ [NL])])) of
        Some (Err e, d) \<Rightarrow> Some e | _ \<Rightarrow> None)
     = Some ''other.linebased:1: include cycle detected: main.linebased -> other.linebased -> main.linebased''"
  by code_simp


end
